theory Spec2Isabelle
  imports Main "HOL-Library.Sublist"
begin

section \<open>Data model\<close>

text \<open>
  The resolution engine of the dependency-injection container: \<open>DefinitionResolver\<close>,
  \<open>DependencyProvider\<close>, \<open>ObjectFactory\<close>, \<open>ObjectProvider\<close> and the two entry points of
  \<open>DependencyManager\<close>.

  Objects of the program that are compared by identity or mutated in place live in explicit
  stores of the state and are named by an address: \<open>Definition\<close> objects (they carry the
  write-once \<open>ResolvedSymbol\<close> slot and are searched for in the stack with \<open>includes\<close>),
  \<open>Future\<close>s, the per-context \<open>registry\<close> objects and the constructed instances.

  Asynchrony is modelled by running every awaited computation to completion where the
  source starts it (depth first, siblings in declaration order). A promise that is never
  settled is the outcome \<open>Pending\<close>. The recursion of the engine is bounded by fuel;
  \<open>OutOfFuel\<close> says that the bound was too small, not what the program does.
\<close>

type_synonym token = nat
type_synonym ref = nat
type_synonym fut = nat
type_synonym addr = nat
type_synonym oid = nat

datatype error = CyclicDependency | FactoryNotDefined | InvalidDefinition | Thrown string

datatype val = VUndef | VStr string | VObj oid | VArr "val list" | VRec "(string \<times> val) list"

datatype 'a outcome = Ok 'a | Err error | Pending | OutOfFuel

text \<open>\<open>Dependency = Reference | Definition\<close>: a type token or a literal definition object.\<close>

datatype dep = ByToken token | Literal ref

text \<open>The payload of a \<open>Value\<close> definition is a plain value or a promise.\<close>

datatype payload = Plain val | Promised "val outcome"

text \<open>
  A factory (\<open>AsyncFactory\<close>) receives the resolved arguments and throws or returns the
  fields of the object it constructs; the object itself is allocated at the invocation, as
  \<open>new ctor(...args)\<close> does in \<open>toClass\<close>.
\<close>

type_synonym factory = "val list \<Rightarrow> error + (string \<times> val) list"

record type_def =
  td_type :: token
  td_shared :: "bool option"
  td_factory :: "factory option"
  td_args :: "dep option list option"
  td_props :: "(string \<times> dep option) list option"

datatype defn =
    DValue payload
  | DArray "dep option list option"
  | DRecord "(string \<times> dep option) list option"
  | DType type_def
  | DReference token

record defobj =
  body :: defn
  cached :: "ref option"

record di_context =
  stack :: "ref list"
  shared :: bool
  registry :: "addr option"
  inst :: "fut option"
  parameters :: "(string \<times> val) list option"

record object =
  otype :: "token option"
  ofields :: "(string \<times> val) list"

text \<open>
  The calls the state keeps a trace of: the \<open>i\<close>-th resolver plug-in run on a definition,
  and for a Type definition the calls of \<open>getArgs\<close>, of its factory and of \<open>getProps\<close>.
\<close>

datatype event =
    Resolver nat ref
  | GetArgs ref
  | Invoke ref "val list"
  | GetProps ref

text \<open>A resolver plug-in: \<open>resolve(ctx, resolved)\<close> followed by \<open>Object.assign\<close>.\<close>

type_synonym plugin = "di_context \<Rightarrow> defn \<Rightarrow> error + defn"

record state =
  heap :: "ref \<rightharpoonup> defobj"
  defRegistry :: "token \<rightharpoonup> ref"
  resolvers :: "plugin list"
  objRegistry :: "ref \<rightharpoonup> fut"
  futures :: "fut \<rightharpoonup> val option"
  registries :: "addr \<rightharpoonup> (token \<rightharpoonup> fut)"
  objects :: "oid \<rightharpoonup> object"
  fresh :: nat
  trace :: "event list"

type_synonym 'a task = "state \<Rightarrow> 'a outcome \<times> state"

text \<open>\<open>const a = await m; ...\<close>: the rest runs when \<open>m\<close> fulfils; a rejection is rethrown, and
  nothing follows a promise that never settles.\<close>

definition await :: "'a task \<Rightarrow> ('a \<Rightarrow> 'b task) \<Rightarrow> 'b task" where
  "await m f s =
     (case m s of
        (Ok a, s') \<Rightarrow> f a s'
      | (Err e, s') \<Rightarrow> (Err e, s')
      | (Pending, s') \<Rightarrow> (Pending, s')
      | (OutOfFuel, s') \<Rightarrow> (OutOfFuel, s'))"

text \<open>What a read through an address that holds no object gives. The engine obtains its
  addresses by allocation only and does not get there.\<close>

definition typeError :: error where
  "typeError = Thrown ''TypeError''"

section \<open>definition.ts\<close>

definition makeType :: "token \<Rightarrow> defn" where
  "makeType t = DType \<lparr>td_type = t, td_shared = None, td_factory = None,
                       td_args = None, td_props = None\<rparr>"

definition makeArray :: "dep option list \<Rightarrow> defn" where
  "makeArray elements = DArray (Some elements)"

definition makeRecord :: "(string \<times> dep option) list \<Rightarrow> defn" where
  "makeRecord elements = DRecord (Some elements)"

definition isReference :: "defn \<Rightarrow> bool" where
  "isReference d = (case d of DReference _ \<Rightarrow> True | _ \<Rightarrow> False)"

section \<open>DefinitionResolver\<close>

definition getDefinition :: "dep \<Rightarrow> state \<Rightarrow> ref \<times> state" where
  "getDefinition type s =
     (case type of
        Literal d \<Rightarrow> (d, s)
      | ByToken t \<Rightarrow>
          (case defRegistry s t of
             Some d \<Rightarrow> (d, s)
           | None \<Rightarrow>
               (let d = fresh s
                in (d, s\<lparr>heap := (heap s)(d \<mapsto> \<lparr>body = makeType t, cached = None\<rparr>),
                         defRegistry := (defRegistry s)(t \<mapsto> d),
                         fresh := Suc d\<rparr>))))"

definition hasResolved :: "state \<Rightarrow> ref \<Rightarrow> bool" where
  "hasResolved s d = (case heap s d of Some obj \<Rightarrow> cached obj \<noteq> None | None \<Rightarrow> False)"

text \<open>The \<open>while (def.kind === Definition.Kind.Reference)\<close> loop of \<open>resolve\<close>.\<close>

fun chase :: "nat \<Rightarrow> ref \<Rightarrow> ref list \<Rightarrow> (ref \<times> ref list) task" where
  "chase 0 d tags s = (OutOfFuel, s)"
| "chase (Suc n) d tags s =
     (case heap s d of
        None \<Rightarrow> (Err typeError, s)
      | Some obj \<Rightarrow>
          (case body obj of
             DReference target \<Rightarrow>
               (let (d', s') = getDefinition (ByToken target) s
                in if hasResolved s' d' then (Ok (d', tags @ [d]), s')
                   else chase n d' (tags @ [d]) s')
           | _ \<Rightarrow> (Ok (d, tags), s)))"

text \<open>The \<open>for (const resolver of this.resolvers)\<close> loop, on the copy \<open>{...def}\<close>.\<close>

fun runResolvers :: "plugin list \<Rightarrow> nat \<Rightarrow> di_context \<Rightarrow> ref \<Rightarrow> defn \<Rightarrow> state
                       \<Rightarrow> (error + defn) \<times> state" where
  "runResolvers [] i ctx d resolved s = (Inr resolved, s)"
| "runResolvers (p # ps) i ctx d resolved s =
     (let s' = s\<lparr>trace := trace s @ [Resolver i d]\<rparr>
      in case p ctx resolved of
           Inl e \<Rightarrow> (Inl e, s')
         | Inr resolved' \<Rightarrow> runResolvers ps (Suc i) ctx d resolved' s')"

text \<open>
  \<open>Reflect.defineProperty(def, ResolvedSymbol, {writable: false, configurable: false, ...})\<close>:
  the slot is written once; a later definition with another value changes nothing and
  does not throw.
\<close>

definition defineResolved :: "ref \<Rightarrow> ref \<Rightarrow> state \<Rightarrow> state" where
  "defineResolved d r s =
     (case heap s d of
        None \<Rightarrow> s
      | Some obj \<Rightarrow>
          (case cached obj of
             Some _ \<Rightarrow> s
           | None \<Rightarrow> s\<lparr>heap := (heap s)(d \<mapsto> obj\<lparr>cached := Some r\<rparr>)\<rparr>))"

text \<open>
  The \<open>if (!def[ResolvedSymbol])\<close> block. The copy \<open>{...def}\<close> that the plug-ins rewrite is a
  new object; it gets its address when it is attached to the definition, so a run in
  which a plug-in throws leaves no object behind.
\<close>

definition resolveTerminal :: "di_context \<Rightarrow> ref \<Rightarrow> ref task" where
  "resolveTerminal ctx d s =
     (case heap s d of
        None \<Rightarrow> (Err typeError, s)
      | Some obj \<Rightarrow>
          (case cached obj of
             Some r \<Rightarrow> (Ok r, s)
           | None \<Rightarrow>
               (case runResolvers (resolvers s) 0 ctx d (body obj) s of
                  (Inl e, s') \<Rightarrow> (Err e, s')
                | (Inr resolved, s') \<Rightarrow>
                    (let r = fresh s';
                         s'' = s'\<lparr>heap := (heap s')(r \<mapsto> \<lparr>body = resolved, cached = None\<rparr>),
                                  fresh := Suc r\<rparr>
                     in (Ok r, defineResolved d r s'')))))"

definition resolve :: "nat \<Rightarrow> di_context \<Rightarrow> dep \<Rightarrow> ref task" where
  "resolve n ctx type s =
     (let (d0, s0) = getDefinition type s
      in await (chase n d0 [])
           (\<lambda>(d, tags). await (resolveTerminal ctx d)
              (\<lambda>r s'. (Ok r, fold (\<lambda>tag. defineResolved tag r) tags s'))) s0)"

section \<open>Futures, registries and JavaScript assignments\<close>

text \<open>
  Modelled from the spec: \<open>Future\<close> of the package \<open>@saggitarius/future\<close> is not part of the
  repository. It is a cell that is pending until \<open>set\<close> settles it with a value; awaiting it
  (returning it from an \<open>async\<close> function, or \<open>get()\<close>) yields the value once it is settled
  and never settles otherwise.
\<close>

definition newFuture :: "state \<Rightarrow> fut \<times> state" where
  "newFuture s = (fresh s, s\<lparr>futures := (futures s)(fresh s \<mapsto> None), fresh := Suc (fresh s)\<rparr>)"

definition setFuture :: "fut \<Rightarrow> val \<Rightarrow> state \<Rightarrow> state" where
  "setFuture f v s = s\<lparr>futures := (futures s)(f \<mapsto> Some v)\<rparr>"

definition awaitFuture :: "fut \<Rightarrow> val task" where
  "awaitFuture f s =
     (case futures s f of
        None \<Rightarrow> (Err typeError, s)
      | Some None \<Rightarrow> (Pending, s)
      | Some (Some v) \<Rightarrow> (Ok v, s))"

text \<open>\<open>ctx.registry && ctx.registry[hash]\<close>\<close>

definition registryGet :: "di_context \<Rightarrow> token \<Rightarrow> state \<Rightarrow> fut option" where
  "registryGet ctx h s =
     (case registry ctx of
        None \<Rightarrow> None
      | Some a \<Rightarrow> (case registries s a of None \<Rightarrow> None | Some m \<Rightarrow> m h))"

text \<open>\<open>ctx.registry[hash] = future\<close> on the registry object at address \<open>a\<close>\<close>

definition registrySet :: "addr \<Rightarrow> token \<Rightarrow> fut \<Rightarrow> state \<Rightarrow> state" where
  "registrySet a h f s =
     s\<lparr>registries := (registries s)
          (a \<mapsto> ((case registries s a of None \<Rightarrow> Map.empty | Some m \<Rightarrow> m)(h \<mapsto> f)))\<rparr>"

text \<open>\<open>elems[index] = v\<close> on an array: an index past the end extends the array with holes.\<close>

definition setIndex :: "val list \<Rightarrow> nat \<Rightarrow> val \<Rightarrow> val list" where
  "setIndex elems i v =
     (if i < length elems then elems[i := v]
      else elems @ replicate (i - length elems) VUndef @ [v])"

text \<open>\<open>elems[key] = v\<close> on an object: an own key keeps its place, a new key is appended.\<close>

fun setKey :: "(string \<times> val) list \<Rightarrow> string \<Rightarrow> val \<Rightarrow> (string \<times> val) list" where
  "setKey [] k v = [(k, v)]"
| "setKey ((k', v') # kvs) k v =
     (if k' = k then (k, v) # kvs else (k', v') # setKey kvs k v)"

text \<open>The assignments of the element callbacks, in the order in which they complete.\<close>

definition assembleArray :: "(nat \<times> val) list \<Rightarrow> val list" where
  "assembleArray completed = foldl (\<lambda>elems (i, v). setIndex elems i v) [] completed"

definition assembleRecord :: "(string \<times> val) list \<Rightarrow> (string \<times> val) list" where
  "assembleRecord completed = foldl (\<lambda>elems (k, v). setKey elems k v) [] completed"

text \<open>
  \<open>xs.map(async (x) => ...)\<close>: every callback is started, in order, whatever the others
  do; \<open>Promise.all\<close> then rejects if one of them rejects, never settles if one never
  settles and none rejects, and fulfils otherwise. Of several rejections the program
  reports the first in time; here it is the first in the order of the elements.
\<close>

fun startAll :: "('a \<Rightarrow> val task) \<Rightarrow> 'a list \<Rightarrow> state \<Rightarrow> val outcome list \<times> state" where
  "startAll f [] s = ([], s)"
| "startAll f (x # xs) s =
     (let (r, s') = f x s; (rs, s'') = startAll f xs s' in (r # rs, s''))"

fun fulfilled :: "val outcome list \<Rightarrow> val list" where
  "fulfilled [] = []"
| "fulfilled (Ok v # rs) = v # fulfilled rs"
| "fulfilled (_ # rs) = fulfilled rs"

definition promiseAll :: "val outcome list \<Rightarrow> val list outcome" where
  "promiseAll rs =
     (if OutOfFuel \<in> set rs then OutOfFuel
      else case find (\<lambda>r. case r of Err _ \<Rightarrow> True | _ \<Rightarrow> False) rs of
             Some (Err e) \<Rightarrow> Err e
           | _ \<Rightarrow> if Pending \<in> set rs then Pending else Ok (fulfilled rs))"

section \<open>DependencyProvider, ObjectFactory, ObjectProvider\<close>

text \<open>
  Every recursive call of the engine goes through \<open>DependencyProvider.get\<close>, which the
  factory holds as \<open>depsProvider\<close>. The functions below take it as the parameter \<open>get\<close>;
  \<open>DependencyProvider_get\<close> at the end ties the knot.
\<close>

type_synonym provider = "di_context \<Rightarrow> dep option \<Rightarrow> val task"

text \<open>
  Modelled from the spec: \<open>Typing\<close> of the package \<open>@saggitarius/typing\<close> is not part of
  the repository. A type token is an opaque identity (\<open>Typing.type\<close> normalises a string or
  a class to its token), and \<open>Typing.hashOf\<close> gives each token its own symbol, so the token
  itself stands for its hash.
\<close>

definition hashOf :: "defn \<Rightarrow> token option" where
  "hashOf d = (case d of DType def \<Rightarrow> Some (td_type def) | _ \<Rightarrow> None)"

definition isShared :: "defn \<Rightarrow> bool" where
  "isShared d =
     (case d of
        DType def \<Rightarrow> (case td_shared def of None \<Rightarrow> True | Some b \<Rightarrow> b)
      | _ \<Rightarrow> False)"

definition forkContext :: "di_context \<Rightarrow> ref \<Rightarrow> di_context task" where
  "forkContext ctx r s =
     (case heap s r of
        None \<Rightarrow> (Err typeError, s)
      | Some obj \<Rightarrow>
          if r \<in> set (stack ctx) then (Err CyclicDependency, s)
          else
            (let entries = (case registry ctx of
                              None \<Rightarrow> Map.empty
                            | Some a \<Rightarrow> (case registries s a of None \<Rightarrow> Map.empty | Some m \<Rightarrow> m));
                 a' = fresh s
             in (Ok \<lparr>stack = stack ctx @ [r], shared = isShared (body obj),
                     registry = Some a', inst = None, parameters = None\<rparr>,
                 s\<lparr>registries := (registries s)(a' \<mapsto> entries), fresh := Suc a'\<rparr>)))"

definition getValue :: "payload \<Rightarrow> val task" where
  "getValue p s = (case p of Plain v \<Rightarrow> (Ok v, s) | Promised r \<Rightarrow> (r, s))"

definition getArray :: "provider \<Rightarrow> di_context \<Rightarrow> dep option list option \<Rightarrow> val task" where
  "getArray get ctx elements s =
     (let (rs, s') = startAll (get ctx) (case elements of None \<Rightarrow> [] | Some es \<Rightarrow> es) s
      in (case promiseAll rs of
            Ok vs \<Rightarrow> Ok (VArr (assembleArray (enumerate 0 vs)))
          | Err e \<Rightarrow> Err e
          | Pending \<Rightarrow> Pending
          | OutOfFuel \<Rightarrow> OutOfFuel, s'))"

definition getRecord :: "provider \<Rightarrow> di_context \<Rightarrow> (string \<times> dep option) list option
                          \<Rightarrow> val task" where
  "getRecord get ctx elements s =
     (let es = (case elements of None \<Rightarrow> [] | Some es \<Rightarrow> es);
          (rs, s') = startAll (\<lambda>key. get ctx (case map_of es key of None \<Rightarrow> None | Some d \<Rightarrow> d))
                       (remdups (map fst es)) s
      in (case promiseAll rs of
            Ok vs \<Rightarrow> Ok (VRec (assembleRecord (zip (remdups (map fst es)) vs)))
          | Err e \<Rightarrow> Err e
          | Pending \<Rightarrow> Pending
          | OutOfFuel \<Rightarrow> OutOfFuel, s'))"

definition getArgs :: "provider \<Rightarrow> di_context \<Rightarrow> ref \<Rightarrow> type_def \<Rightarrow> val task" where
  "getArgs get ctx r def s =
     (let s0 = s\<lparr>trace := trace s @ [GetArgs r]\<rparr>
      in case td_args def of
           None \<Rightarrow> (Ok (VArr []), s0)
         | Some args \<Rightarrow>
             (let a = fresh s0
              in get ctx (Some (Literal a))
                   (s0\<lparr>heap := (heap s0)(a \<mapsto> \<lparr>body = makeArray args, cached = None\<rparr>),
                       fresh := Suc a\<rparr>)))"

definition getProps :: "provider \<Rightarrow> di_context \<Rightarrow> ref \<Rightarrow> type_def \<Rightarrow> val task" where
  "getProps get ctx r def s =
     (let s0 = s\<lparr>trace := trace s @ [GetProps r]\<rparr>
      in case td_props def of
           None \<Rightarrow> (Ok (VRec []), s0)
         | Some props \<Rightarrow>
             (let a = fresh s0
              in get ctx (Some (Literal a))
                   (s0\<lparr>heap := (heap s0)(a \<mapsto> \<lparr>body = makeRecord props, cached = None\<rparr>),
                       fresh := Suc a\<rparr>)))"

text \<open>\<open>await factory(...args)\<close> followed by \<open>Typing.store(instance, def.type)\<close>\<close>

definition invoke :: "factory \<Rightarrow> ref \<Rightarrow> type_def \<Rightarrow> val list \<Rightarrow> oid task" where
  "invoke factory r def args s =
     (let s0 = s\<lparr>trace := trace s @ [Invoke r args]\<rparr>
      in case factory args of
           Inl e \<Rightarrow> (Err e, s0)
         | Inr fs \<Rightarrow>
             (let o' = fresh s0
              in (Ok o', s0\<lparr>objects := (objects s0)
                                (o' \<mapsto> \<lparr>otype = Some (td_type def), ofields = fs\<rparr>),
                            fresh := Suc o'\<rparr>)))"

text \<open>\<open>Object.assign(instance, props)\<close>\<close>

definition assignProps :: "oid \<Rightarrow> val \<Rightarrow> state \<Rightarrow> state" where
  "assignProps o' props s =
     (case (objects s o', props) of
        (Some obj, VRec kvs) \<Rightarrow>
          s\<lparr>objects := (objects s)
               (o' \<mapsto> obj\<lparr>ofields := foldl (\<lambda>fs (k, v). setKey fs k v) (ofields obj) kvs\<rparr>)\<rparr>
      | _ \<Rightarrow> s)"

definition ObjectFactory_create :: "provider \<Rightarrow> di_context \<Rightarrow> ref \<Rightarrow> type_def \<Rightarrow> val task" where
  "ObjectFactory_create get ctx r def s =
     (let (argsPromise, s1) = getArgs get ctx r def s
      in case td_factory def of
           None \<Rightarrow> (Err FactoryNotDefined, s1)
         | Some factory \<Rightarrow>
             await (\<lambda>s. (argsPromise, s))
               (\<lambda>args. case args of
                  VArr vs \<Rightarrow>
                    await (invoke factory r def vs)
                      (\<lambda>o' s2.
                         (let s3 = (case inst ctx of
                                      None \<Rightarrow> s2
                                    | Some f \<Rightarrow> setFuture f (VObj o') s2)
                          in await (getProps get ctx r def)
                               (\<lambda>props s4. (Ok (VObj o'), assignProps o' props s4)) s3))
                | _ \<Rightarrow> (\<lambda>s. (Err typeError, s))) s1)"

definition ObjectProvider_get :: "provider \<Rightarrow> di_context \<Rightarrow> ref \<Rightarrow> type_def \<Rightarrow> val task" where
  "ObjectProvider_get get ctx r def s =
     (let hash = td_type def
      in case registryGet ctx hash s of
           Some f \<Rightarrow> awaitFuture f s
         | None \<Rightarrow>
             (case objRegistry s r of
                Some f \<Rightarrow> awaitFuture f s
              | None \<Rightarrow>
                  (let (f, s1) = (case inst ctx of Some f \<Rightarrow> (f, s) | None \<Rightarrow> newFuture s);
                       (a, s2) = (case registry ctx of
                                    Some a \<Rightarrow> (a, s1)
                                  | None \<Rightarrow> (fresh s1, s1\<lparr>registries := (registries s1)
                                                                (fresh s1 \<mapsto> Map.empty),
                                                            fresh := Suc (fresh s1)\<rparr>));
                       s3 = s2\<lparr>objRegistry := (objRegistry s2)(r \<mapsto> f)\<rparr>;
                       s4 = registrySet a hash f s3
                   in ObjectFactory_create get (ctx\<lparr>inst := Some f, registry := Some a\<rparr>)
                        r def s4)))"

definition getType :: "provider \<Rightarrow> di_context \<Rightarrow> ref \<Rightarrow> type_def \<Rightarrow> val task" where
  "getType get ctx r def s =
     (if shared ctx then ObjectProvider_get get ctx r def s
      else ObjectFactory_create get ctx r def s)"

definition getDependency :: "provider \<Rightarrow> di_context \<Rightarrow> ref \<Rightarrow> val task" where
  "getDependency get ctx r =
     await (forkContext ctx r)
       (\<lambda>ctx' s. case heap s r of
          None \<Rightarrow> (Err typeError, s)
        | Some obj \<Rightarrow>
            (case body obj of
               DValue p \<Rightarrow> getValue p s
             | DArray elements \<Rightarrow> getArray get ctx' elements s
             | DRecord elements \<Rightarrow> getRecord get ctx' elements s
             | DType def \<Rightarrow> getType get ctx' r def s
             | DReference _ \<Rightarrow> (Err InvalidDefinition, s)))"

definition DependencyProvider_get :: "nat \<Rightarrow> provider \<Rightarrow> provider" where
  "DependencyProvider_get n get ctx dep s =
     (case dep of
        None \<Rightarrow> (Ok VUndef, s)
      | Some d \<Rightarrow>
          await (resolve n ctx d)
            (\<lambda>r s'. case heap s' r of
               None \<Rightarrow> (Err typeError, s')
             | Some obj \<Rightarrow>
                 (case hashOf (body obj) of
                    None \<Rightarrow> getDependency get ctx r s'
                  | Some hash \<Rightarrow>
                      (case registryGet ctx hash s' of
                         Some f \<Rightarrow> awaitFuture f s'
                       | None \<Rightarrow> getDependency get ctx r s'))) s)"

text \<open>The engine with \<open>n\<close> levels of nesting.\<close>

fun provide :: "nat \<Rightarrow> provider" where
  "provide 0 ctx dep s = (OutOfFuel, s)"
| "provide (Suc n) ctx dep s = DependencyProvider_get (Suc n) (provide n) ctx dep s"

section \<open>DependencyManager\<close>

definition getContext :: di_context where
  "getContext = \<lparr>stack = [], shared = True, registry = None, inst = None, parameters = None\<rparr>"

definition createContext :: "(string \<times> val) list \<Rightarrow> di_context" where
  "createContext params =
     \<lparr>stack = [], shared = False, registry = None, inst = None, parameters = Some params\<rparr>"

definition DependencyManager_get :: "nat \<Rightarrow> token \<Rightarrow> val task" where
  "DependencyManager_get n type = provide n getContext (Some (ByToken type))"

definition DependencyManager_create :: "nat \<Rightarrow> token \<Rightarrow> (string \<times> val) list \<Rightarrow> val task" where
  "DependencyManager_create n type params =
     provide n (createContext params) (Some (ByToken type))"

section \<open>Invariants of the engine\<close>

text \<open>The number of times the factory of the definition object \<open>r\<close> was invoked.\<close>

definition invocations :: "ref \<Rightarrow> event list \<Rightarrow> nat" where
  "invocations r tr = length (filter (\<lambda>e. case e of Invoke r' _ \<Rightarrow> r' = r | _ \<Rightarrow> False) tr)"

text \<open>Addresses are handed out in increasing order: what is in use lies below \<open>fresh\<close>.\<close>

definition allocated :: "state \<Rightarrow> bool" where
  "allocated s \<longleftrightarrow>
     (\<forall>d. heap s d \<noteq> None \<longrightarrow> d < fresh s) \<and> (\<forall>f. futures s f \<noteq> None \<longrightarrow> f < fresh s)"

text \<open>
  What a run of the engine leaves alone: definition objects keep their body and, once
  written, their cached resolution; registry entries stay; the futures that existed
  (but those in \<open>F\<close>) are not touched; the factories of the definitions in \<open>R\<close> are not
  invoked.
\<close>

definition extendsBut :: "fut set \<Rightarrow> ref set \<Rightarrow> state \<Rightarrow> state \<Rightarrow> bool" where
  "extendsBut F R s s' \<longleftrightarrow>
     fresh s \<le> fresh s' \<and> prefix (trace s) (trace s') \<and> resolvers s' = resolvers s \<and>
     (\<forall>d obj. heap s d = Some obj \<longrightarrow>
        (\<exists>obj'. heap s' d = Some obj' \<and> body obj' = body obj \<and>
                (cached obj \<noteq> None \<longrightarrow> cached obj' = cached obj))) \<and>
     (\<forall>t d. defRegistry s t = Some d \<longrightarrow> defRegistry s' t = Some d) \<and>
     (\<forall>r f. objRegistry s r = Some f \<longrightarrow> objRegistry s' r = Some f) \<and>
     (\<forall>f. f < fresh s \<and> f \<notin> F \<longrightarrow> futures s' f = futures s f) \<and>
     (\<forall>r\<in>R. invocations r (trace s') = invocations r (trace s))"

text \<open>The shared definitions that have a future in the instance registry.\<close>

definition registered :: "state \<Rightarrow> ref set" where
  "registered s = {r. \<exists>obj. heap s r = Some obj \<and> isShared (body obj) \<and> objRegistry s r \<noteq> None}"

text \<open>A request made in context \<open>ctx\<close> never invokes the factory of a definition on its
  stack, nor of a registered shared definition.\<close>

definition protected :: "di_context \<Rightarrow> state \<Rightarrow> ref set" where
  "protected ctx s = set (stack ctx) \<union> registered s"

definition sound :: "provider \<Rightarrow> bool" where
  "sound get \<longleftrightarrow>
     (\<forall>ctx dep s res s'. allocated s \<and> get ctx dep s = (res, s')
        \<longrightarrow> allocated s' \<and> extendsBut {} (protected ctx s) s s')"

section \<open>Configurations\<close>

text \<open>
  The state that \<open>bootstrap\<close> builds before it binds anything (empty registries, the given
  resolvers), and what a binding leaves in it: a definition object in the heap and, for
  \<open>bind(type)\<close>, its entry in the definition registry.
\<close>

definition emptyEngine :: "plugin list \<Rightarrow> state" where
  "emptyEngine ps = \<lparr>heap = Map.empty, defRegistry = Map.empty, resolvers = ps,
     objRegistry = Map.empty, futures = Map.empty, registries = Map.empty,
     objects = Map.empty, fresh = 0, trace = []\<rparr>"

definition literal :: "defn \<Rightarrow> state \<Rightarrow> state" where
  "literal d s = s\<lparr>heap := (heap s)(fresh s \<mapsto> \<lparr>body = d, cached = None\<rparr>),
                   fresh := Suc (fresh s)\<rparr>"

definition bindTo :: "token \<Rightarrow> defn \<Rightarrow> state \<Rightarrow> state" where
  "bindTo t d s = s\<lparr>heap := (heap s)(fresh s \<mapsto> \<lparr>body = d, cached = None\<rparr>),
                    defRegistry := (defRegistry s)(t \<mapsto> fresh s),
                    fresh := Suc (fresh s)\<rparr>"

text \<open>\<open>toClass(ctor)\<close>: the factory \<open>async (...args) => new ctor(...args)\<close> of a class whose
  constructor stores its arguments under the given field names.\<close>

definition ctor :: "string list \<Rightarrow> factory" where
  "ctor names args = Inr (zip names args)"

text \<open>\<open>bind(1).toClass(Foo)\<close>, shared by default.\<close>

definition exFoo :: state where
  "exFoo = bindTo 1 (DType \<lparr>td_type = 1, td_shared = None, td_factory = Some (ctor []),
                            td_args = None, td_props = None\<rparr>) (emptyEngine [])"

text \<open>\<open>bind(1).toClass(A).withArgument(0, 2)\<close> and \<open>bind(2).toClass(B).withArgument(0, 1)\<close>,
  both with the given \<open>shared\<close> field.\<close>

definition exCycle :: "bool option \<Rightarrow> state" where
  "exCycle sh =
     bindTo 2 (DType \<lparr>td_type = 2, td_shared = sh, td_factory = Some (ctor [''a'']),
                      td_args = Some [Some (ByToken 1)], td_props = None\<rparr>)
    (bindTo 1 (DType \<lparr>td_type = 1, td_shared = sh, td_factory = Some (ctor [''b'']),
                      td_args = Some [Some (ByToken 2)], td_props = None\<rparr>) (emptyEngine []))"

text \<open>\<open>bind(1).toFactory(() => { throw "boom" })\<close>, shared by default.\<close>

definition exFail :: state where
  "exFail = bindTo 1 (DType \<lparr>td_type = 1, td_shared = None,
                             td_factory = Some (\<lambda>args. Inl (Thrown ''boom'')),
                             td_args = None, td_props = None\<rparr>) (emptyEngine [])"

text \<open>An array definition with a value at index 0 and a hole at index 1.\<close>

definition exArray :: state where
  "exArray = literal (DValue (Plain (VStr ''x''))) (emptyEngine [])"

text \<open>\<open>bind(1).toClass(C).withArgument(0, makeValue("arg")).withProperty("label",
  makeValue("prop"))\<close>\<close>

definition argsPropsDef :: type_def where
  "argsPropsDef = \<lparr>td_type = 1, td_shared = None, td_factory = Some (ctor [''name'']),
                    td_args = Some [Some (Literal 0)],
                    td_props = Some [(''label'', Some (Literal 1))]\<rparr>"

definition exArgsProps :: state where
  "exArgsProps =
     bindTo 1 (DType argsPropsDef)
    (literal (DValue (Plain (VStr ''prop'')))
    (literal (DValue (Plain (VStr ''arg''))) (emptyEngine [])))"


text \<open>
  The token \<open>t\<close> is bound to a definition whose cached resolution \<open>r\<close> is a shared Type,
  and the instance registry holds for \<open>r\<close> the future \<open>f\<close>, settled with \<open>v\<close>.
\<close>

definition memoized :: "state \<Rightarrow> token \<Rightarrow> ref \<Rightarrow> fut \<Rightarrow> val \<Rightarrow> bool" where
  "memoized s t r f v \<longleftrightarrow>
     (\<exists>d obj robj def.
        defRegistry s t = Some d \<and> heap s d = Some obj \<and> \<not> isReference (body obj) \<and>
        cached obj = Some r \<and> heap s r = Some robj \<and> body robj = DType def \<and>
        isShared (DType def) \<and> objRegistry s r = Some f \<and> futures s f = Some (Some v))"




text \<open>The \<open>ResolvedSymbol\<close> slot of the definition object \<open>d\<close>.\<close>


definition cachedOf :: "state \<Rightarrow> ref \<Rightarrow> ref option" where
  "cachedOf s d = (case heap s d of Some obj \<Rightarrow> cached obj | None \<Rightarrow> None)"







lemmas engine_defs =
  emptyEngine_def literal_def bindTo_def ctor_def getContext_def createContext_def
  DependencyManager_get_def DependencyManager_create_def DependencyProvider_get_def
  resolve_def getDefinition_def resolveTerminal_def defineResolved_def hasResolved_def
  await_def hashOf_def registryGet_def getDependency_def forkContext_def isShared_def
  getType_def ObjectProvider_get_def ObjectFactory_create_def getArgs_def getProps_def
  invoke_def newFuture_def registrySet_def setFuture_def awaitFuture_def getArray_def
  getRecord_def getValue_def promiseAll_def assembleArray_def assembleRecord_def
  setIndex_def assignProps_def makeArray_def makeRecord_def makeType_def typeError_def

lemma provide_numeral:
  "provide (numeral k) ctx dep s
     = DependencyProvider_get (numeral k) (provide (pred_numeral k)) ctx dep s"
  by (simp add: numeral_eq_Suc)

lemma chase_numeral:
  "chase (numeral k) d tags s =
     (case heap s d of
        None \<Rightarrow> (Err typeError, s)
      | Some obj \<Rightarrow>
          (case body obj of
             DReference target \<Rightarrow>
               (let (d', s') = getDefinition (ByToken target) s
                in if hasResolved s' d' then (Ok (d', tags @ [d]), s')
                   else chase (pred_numeral k) d' (tags @ [d]) s')
           | _ \<Rightarrow> (Ok (d, tags), s)))"
  by (simp add: numeral_eq_Suc)

lemmas run_defs = engine_defs provide_numeral chase_numeral Let_def

section \<open>Arrays\<close>

lemma startAll_length: "startAll f xs s = (rs, s') \<Longrightarrow> length rs = length xs"
  by (induction xs arbitrary: s rs) (auto split: prod.splits)

lemma startAll_states:
  "startAll f xs s = (rs, s') \<Longrightarrow>
   \<exists>states. length states = Suc (length xs) \<and> hd states = s \<and> last states = s' \<and>
            (\<forall>k<length xs. f (xs ! k) (states ! k) = (rs ! k, states ! Suc k))"
proof (induction xs arbitrary: s rs s')
  case Nil
  then show ?case by (intro exI[of _ "[s]"]) simp
next
  case (Cons x xs)
  obtain r s1 where h: "f x s = (r, s1)" by (cases "f x s")
  obtain rs1 s2 where t: "startAll f xs s1 = (rs1, s2)" by (cases "startAll f xs s1")
  from Cons.prems h t have eq: "rs = r # rs1" "s' = s2" by auto
  from Cons.IH[OF t] obtain states where
    st: "length states = Suc (length xs)" "hd states = s1" "last states = s2"
        "\<forall>k<length xs. f (xs ! k) (states ! k) = (rs1 ! k, states ! Suc k)" by blast
  from st(1) have ne: "states \<noteq> []" by auto
  have "\<forall>k<length (x # xs). f ((x # xs) ! k) ((s # states) ! k) = (rs ! k, (s # states) ! Suc k)"
  proof (intro allI impI)
    fix k assume "k < length (x # xs)"
    show "f ((x # xs) ! k) ((s # states) ! k) = (rs ! k, (s # states) ! Suc k)"
    proof (cases k)
      case 0
      with h eq st(2) ne show ?thesis by (simp add: hd_conv_nth)
    next
      case (Suc j)
      with \<open>k < length (x # xs)\<close> st(4) eq show ?thesis by simp
    qed
  qed
  with st ne eq show ?case
    by (intro exI[of _ "s # states"]) simp
qed

lemma promiseAll_Ok: "promiseAll rs = Ok vs \<Longrightarrow> rs = map Ok vs"
proof (induction rs arbitrary: vs)
  case Nil
  then show ?case by (simp add: promiseAll_def)
next
  case (Cons r rs)
  then show ?case
    by (cases r) (auto simp: promiseAll_def split: if_splits option.splits outcome.splits)
qed

lemma assemble_snoc: "assembleArray (cs @ [(i, v)]) = setIndex (assembleArray cs) i v"
  by (simp add: assembleArray_def)

lemma setIndex_length: "length (setIndex xs i v) = max (length xs) (Suc i)"
  by (auto simp: setIndex_def)

lemma setIndex_nth:
  "k < max (length xs) (Suc i) \<Longrightarrow>
   setIndex xs i v ! k = (if k = i then v else if k < length xs then xs ! k else VUndef)"
  by (auto simp: setIndex_def nth_append)

text \<open>Whatever the order of the assignments, the array ends one past the largest index
  assigned, holds at an assigned index the value assigned and at any other \<open>undefined\<close>.\<close>

lemma assemble_spec:
  "distinct (map fst cs) \<Longrightarrow>
   (\<forall>k. k < length (assembleArray cs) \<longleftrightarrow> (\<exists>i\<in>fst ` set cs. k \<le> i)) \<and>
   (\<forall>k<length (assembleArray cs).
      assembleArray cs ! k = (case map_of cs k of Some v \<Rightarrow> v | None \<Rightarrow> VUndef))"
proof (induction cs rule: rev_induct)
  case Nil
  then show ?case by (simp add: assembleArray_def)
next
  case (snoc c cs)
  obtain i v where c: "c = (i, v)" by (cases c)
  from snoc.prems c have d: "distinct (map fst cs)" and ni: "i \<notin> fst ` set cs" by auto
  note IH = snoc.IH[OF d]
  have A: "\<And>k. k < length (assembleArray cs) \<longleftrightarrow> (\<exists>j\<in>fst ` set cs. k \<le> j)"
    using IH by blast
  have len: "\<forall>k. k < length (assembleArray (cs @ [c])) \<longleftrightarrow> (\<exists>j\<in>fst ` set (cs @ [c]). k \<le> j)"
    by (auto simp: c assemble_snoc setIndex_length A less_Suc_eq_le less_max_iff_disj)
  have mo: "map_of cs i = None" using ni by (simp add: map_of_eq_None_iff)
  have "\<forall>k<length (assembleArray (cs @ [c])).
          assembleArray (cs @ [c]) ! k = (case map_of (cs @ [c]) k of Some v \<Rightarrow> v | None \<Rightarrow> VUndef)"
  proof (intro allI impI)
    fix k assume k: "k < length (assembleArray (cs @ [c]))"
    then have k': "k < max (length (assembleArray cs)) (Suc i)"
      by (simp add: c assemble_snoc setIndex_length)
    show "assembleArray (cs @ [c]) ! k = (case map_of (cs @ [c]) k of Some v \<Rightarrow> v | None \<Rightarrow> VUndef)"
    proof (cases "k = i")
      case True
      then show ?thesis using k' mo
        by (simp add: c assemble_snoc setIndex_nth map_add_def split: option.splits)
    next
      case False
      show ?thesis
      proof (cases "k < length (assembleArray cs)")
        case True
        with False k' IH show ?thesis
          by (simp add: c assemble_snoc setIndex_nth map_add_def split: option.splits)
      next
        case False2: False
        with IH have "\<not> (\<exists>j\<in>fst ` set cs. k \<le> j)" by blast
        then have "k \<notin> fst ` set cs" by blast
        then have "map_of cs k = None" by (simp add: map_of_eq_None_iff)
        with False False2 k' show ?thesis
          by (simp add: c assemble_snoc setIndex_nth map_add_def split: option.splits)
      qed
    qed
  qed
  with len show ?case by blast
qed

lemma assemble_any_order:
  assumes "distinct (map fst cs)" "set cs = set (enumerate 0 vs)"
  shows "assembleArray cs = vs"
proof (rule nth_equalityI)
  have fs: "fst ` set cs = {0..<length vs}"
  proof -
    have "fst ` set cs = set (map fst (enumerate 0 vs))" by (simp only: assms(2) set_map)
    then show ?thesis by simp
  qed
  from assemble_spec[OF assms(1)] have
    L: "\<And>k. k < length (assembleArray cs) \<longleftrightarrow> (\<exists>i\<in>fst ` set cs. k \<le> i)" and
    N: "\<And>k. k < length (assembleArray cs) \<Longrightarrow>
          assembleArray cs ! k = (case map_of cs k of Some v \<Rightarrow> v | None \<Rightarrow> VUndef)"
    by blast+
  have "\<And>k. k < length (assembleArray cs) \<longleftrightarrow> k < length vs"
    unfolding L fs by auto
  then show len: "length (assembleArray cs) = length vs"
    by (metis linorder_neqE_nat nat_neq_iff)
  fix k assume "k < length (assembleArray cs)"
  with len have k: "k < length vs" by simp
  then have "(k, vs ! k) \<in> set cs" using assms(2) by (auto simp: in_set_enumerate_eq)
  with assms(1) have "map_of cs k = Some (vs ! k)" by simp
  with N[OF \<open>k < length (assembleArray cs)\<close>] show "assembleArray cs ! k = vs ! k" by simp
qed

lemma get_hole: "DependencyProvider_get n get ctx None s = (r, s') \<Longrightarrow> r = Ok VUndef \<and> s' = s"
  by (simp add: DependencyProvider_get_def)

text \<open>
  C10. An Array definition whose element resolutions all succeed resolves to an array
  with one entry per declared slot: the entry at index \<open>k\<close> is the value that
  \<open>DependencyProvider.get\<close> returned for the dependency declared at index \<open>k\<close>, and a
  hole (\<open>undefined\<close>) at \<open>k\<close> gives \<open>undefined\<close> at \<open>k\<close> without an error. The array does not
  depend on the order in which the element callbacks complete and assign their slot.
\<close>

theorem array_entries_in_index_order:
  assumes "getArray (DependencyProvider_get n get) ctx elements s = (Ok v, s')"
  shows "\<exists>vs states.
           v = VArr vs \<and>
           length vs = length (case elements of None \<Rightarrow> [] | Some es \<Rightarrow> es) \<and>
           length states = Suc (length vs) \<and> hd states = s \<and> last states = s' \<and>
           (\<forall>k<length vs.
              DependencyProvider_get n get ctx
                ((case elements of None \<Rightarrow> [] | Some es \<Rightarrow> es) ! k) (states ! k)
                = (Ok (vs ! k), states ! Suc k) \<and>
              ((case elements of None \<Rightarrow> [] | Some es \<Rightarrow> es) ! k = None \<longrightarrow> vs ! k = VUndef)) \<and>
           (\<forall>completed. distinct (map fst completed) \<and> set completed = set (enumerate 0 vs)
              \<longrightarrow> VArr (assembleArray completed) = v)"
proof -
  define es where "es = (case elements of None \<Rightarrow> [] | Some es \<Rightarrow> es)"
  define G where "G = DependencyProvider_get n get ctx"
  obtain rs s1 where st: "startAll G es s = (rs, s1)" by (cases "startAll G es s")
  from assms st obtain vs where p: "promiseAll rs = Ok vs"
    and v: "v = VArr (assembleArray (enumerate 0 vs))" and s1: "s1 = s'"
    by (auto simp: getArray_def es_def G_def split: outcome.splits)
  have own: "assembleArray (enumerate 0 vs) = vs"
    by (rule assemble_any_order) (simp_all add: distinct_enumerate)
  from promiseAll_Ok[OF p] have rs: "rs = map Ok vs" .
  from startAll_states[OF st] obtain states where
    ss: "length states = Suc (length es)" "hd states = s" "last states = s1"
        "\<forall>k<length es. G (es ! k) (states ! k) = (rs ! k, states ! Suc k)" by blast
  have len: "length vs = length es"
    using startAll_length[OF st] rs by simp
  have each: "\<forall>k<length vs. G (es ! k) (states ! k) = (Ok (vs ! k), states ! Suc k) \<and>
                (es ! k = None \<longrightarrow> vs ! k = VUndef)"
  proof (intro allI impI)
    fix k assume k: "k < length vs"
    with ss(4) len rs have g: "G (es ! k) (states ! k) = (Ok (vs ! k), states ! Suc k)" by simp
    moreover have "es ! k = None \<longrightarrow> vs ! k = VUndef"
      using g get_hole[of n get ctx "states ! k" "Ok (vs ! k)" "states ! Suc k"]
      by (auto simp: G_def)
    ultimately show "G (es ! k) (states ! k) = (Ok (vs ! k), states ! Suc k) \<and>
                (es ! k = None \<longrightarrow> vs ! k = VUndef)" by blast
  qed
  have any: "\<forall>completed. distinct (map fst completed) \<and> set completed = set (enumerate 0 vs)
              \<longrightarrow> VArr (assembleArray completed) = v"
    using assemble_any_order v own by auto
  show ?thesis
    using v own len ss(1,2,3) s1 each any unfolding es_def G_def
    by (intro exI[of _ vs] exI[of _ states]) simp
qed

theorem array_entries_in_index_order_witness:
  "getArray (DependencyProvider_get 1 (provide 0)) getContext (Some [Some (Literal 0), None]) exArray
     = (Ok (VArr [VStr ''x'', VUndef]),
        snd (getArray (DependencyProvider_get 1 (provide 0)) getContext
               (Some [Some (Literal 0), None]) exArray)) \<and>
   (\<exists>vs states.
      VArr [VStr ''x'', VUndef] = VArr vs \<and> length vs = 2 \<and>
      (\<forall>k<length vs.
         DependencyProvider_get 1 (provide 0) getContext ([Some (Literal 0), None] ! k) (states ! k)
           = (Ok (vs ! k), states ! Suc k) \<and>
         ([Some (Literal 0), None] ! k = None \<longrightarrow> vs ! k = VUndef)) \<and>
      (\<forall>completed. distinct (map fst completed) \<and> set completed = set (enumerate 0 vs)
         \<longrightarrow> VArr (assembleArray completed) = VArr [VStr ''x'', VUndef]))"
proof -
  have "fst (getArray (DependencyProvider_get 1 (provide 0)) getContext
               (Some [Some (Literal 0), None]) exArray) = Ok (VArr [VStr ''x'', VUndef])"
    by (simp add: engine_defs exArray_def)
  then have h: "getArray (DependencyProvider_get 1 (provide 0)) getContext
                  (Some [Some (Literal 0), None]) exArray
                = (Ok (VArr [VStr ''x'', VUndef]),
                   snd (getArray (DependencyProvider_get 1 (provide 0)) getContext
                          (Some [Some (Literal 0), None]) exArray))"
    by (metis prod.collapse)
  from array_entries_in_index_order[OF h] h show ?thesis by auto
qed

section \<open>Sharing and cycles at concrete configurations\<close>

text \<open>
  C1. After \<open>get(1)\<close> has constructed the shared instance of type 1, \<open>create(1, {})\<close> returns
  that same instance: the factory is not invoked for the call (the trace does not grow).
  \<open>forkContext\<close> computes \<open>shared\<close> from the definition and overwrites the \<open>shared: false\<close>
  of the context that \<open>create\<close> built.
\<close>

theorem create_returns_memoized_instance:
  "(let (r1, s1) = DependencyManager_get 1 1 exFoo;
        (r2, s2) = DependencyManager_create 1 1 [] s1
    in r1 = Ok (VObj 4) \<and> r2 = Ok (VObj 4) \<and>
       trace s1 = [GetArgs 1, Invoke 1 [], GetProps 1] \<and> trace s2 = trace s1)"
  by (simp add: engine_defs exFoo_def)

lemma nonshared_cycle_is_detected:
  "fst (DependencyManager_get 5 1 (exCycle (Some False))) = Err CyclicDependency"
  by (simp add: run_defs exCycle_def)

text \<open>
  C5. With \<open>A\<close> and \<open>B\<close> bound as shared types (the default) whose constructors take each
  other, \<open>get(A)\<close> does not fail with a cyclic-dependency error: the nested request for
  \<open>A\<close> finds the pending future of \<open>A\<close> in the context registry before \<open>forkContext\<close> is
  reached and awaits it, so the call never settles.
\<close>

theorem shared_cycle_never_settles:
  "fst (DependencyManager_get 5 1 (exCycle None)) = Pending"
  by (simp add: run_defs exCycle_def)

text \<open>
  C9. The factory of the shared type 1 throws. The first \<open>get(1)\<close> rejects with the error;
  the second one joins the future that the first left in the instance registry, which
  nothing settles, and so never settles itself.
\<close>

theorem joined_failure_never_settles:
  "(let (r1, s1) = DependencyManager_get 1 1 exFail;
        (r2, s2) = DependencyManager_get 1 1 s1
    in r1 = Err (Thrown ''boom'') \<and> r2 = Pending)"
  by (simp add: engine_defs exFail_def)

section \<open>Forked contexts\<close>




section \<open>What every run of the engine preserves\<close>

lemma extendsBut_refl: "extendsBut F R s s"
  by (simp add: extendsBut_def)

lemma extendsBut_trans:
  assumes a: "extendsBut F R s s'" and b: "extendsBut F R s' s''"
  shows "extendsBut F R s s''"
proof -
  have h: "\<forall>d obj. heap s d = Some obj \<longrightarrow>
        (\<exists>obj'. heap s'' d = Some obj' \<and> body obj' = body obj \<and>
                (cached obj \<noteq> None \<longrightarrow> cached obj' = cached obj))"
  proof (intro allI impI)
    fix d obj assume "heap s d = Some obj"
    with a obtain obj1 where o1: "heap s' d = Some obj1" "body obj1 = body obj"
        "cached obj \<noteq> None \<longrightarrow> cached obj1 = cached obj"
      unfolding extendsBut_def by blast
    with b obtain obj2 where o2: "heap s'' d = Some obj2" "body obj2 = body obj1"
        "cached obj1 \<noteq> None \<longrightarrow> cached obj2 = cached obj1"
      unfolding extendsBut_def by blast
    from o1 o2 show "\<exists>obj'. heap s'' d = Some obj' \<and> body obj' = body obj \<and>
                (cached obj \<noteq> None \<longrightarrow> cached obj' = cached obj)"
      by auto
  qed
  have f: "\<forall>f. f < fresh s \<and> f \<notin> F \<longrightarrow> futures s'' f = futures s f"
    using a b unfolding extendsBut_def by (metis order_less_le_trans)
  have p: "prefix (trace s) (trace s'')"
    using a b unfolding extendsBut_def by (meson prefix_order.order_trans)
  have rest: "fresh s \<le> fresh s''" "resolvers s'' = resolvers s"
    "\<forall>t d. defRegistry s t = Some d \<longrightarrow> defRegistry s'' t = Some d"
    "\<forall>r f. objRegistry s r = Some f \<longrightarrow> objRegistry s'' r = Some f"
    "\<forall>r\<in>R. invocations r (trace s'') = invocations r (trace s)"
    using a b unfolding extendsBut_def by simp_all
  from h f p rest show ?thesis unfolding extendsBut_def by blast
qed

lemma extendsBut_weaken:
  "extendsBut F R s s' \<Longrightarrow> F \<subseteq> F' \<Longrightarrow> R' \<subseteq> R \<Longrightarrow> extendsBut F' R' s s'"
  unfolding extendsBut_def by (auto simp: subset_iff)

lemma registered_mono: "extendsBut F R s s' \<Longrightarrow> registered s \<subseteq> registered s'"
  unfolding extendsBut_def registered_def by fastforce

lemma protected_mono: "extendsBut F R s s' \<Longrightarrow> protected ctx s \<subseteq> protected ctx s'"
  using registered_mono unfolding protected_def by blast

lemma invocations_append [simp]:
  "invocations r (xs @ ys) = invocations r xs + invocations r ys"
  by (simp add: invocations_def)

lemma invocations_simps [simp]:
  "invocations r [] = 0"
  "invocations r (Invoke r' vs # tr) = (if r' = r then Suc (invocations r tr) else invocations r tr)"
  "invocations r (GetArgs r' # tr) = invocations r tr"
  "invocations r (GetProps r' # tr) = invocations r tr"
  "invocations r (Resolver i r' # tr) = invocations r tr"
  by (simp_all add: invocations_def)

lemma getDefinition_ext:
  assumes "allocated s" "getDefinition type s = (d, s')"
  shows "allocated s' \<and> extendsBut F UNIV s s'"
  using assms
  by (auto simp: getDefinition_def allocated_def extendsBut_def Let_def makeType_def less_Suc_eq
           split: dep.splits option.splits if_splits)

lemma chase_ext:
  "allocated s \<Longrightarrow> chase n d tags s = (res, s') \<Longrightarrow> allocated s' \<and> extendsBut F UNIV s s'"
proof (induction n arbitrary: d tags s)
  case 0
  then show ?case by (simp add: extendsBut_refl)
next
  case (Suc n)
  show ?case
  proof (cases "heap s d")
    case None
    with Suc.prems show ?thesis by (simp add: extendsBut_refl)
  next
    case (Some obj)
    show ?thesis
    proof (cases "body obj")
      case (DReference target)
      obtain d' s1 where g: "getDefinition (ByToken target) s = (d', s1)"
        by (cases "getDefinition (ByToken target) s")
      from getDefinition_ext[OF Suc.prems(1) g] have a: "allocated s1" and e: "extendsBut F UNIV s s1"
        by blast+
      show ?thesis
      proof (cases "hasResolved s1 d'")
        case True
        with Suc.prems Some DReference g a e show ?thesis by simp
      next
        case False
        with Suc.prems Some DReference g have "chase n d' (tags @ [d]) s1 = (res, s')" by simp
        from Suc.IH[OF a this] e show ?thesis using extendsBut_trans by blast
      qed
    qed (use Suc.prems Some in \<open>auto simp: extendsBut_refl\<close>)
  qed
qed

lemma runResolvers_ext:
  "runResolvers ps i ctx d b s = (res, s') \<Longrightarrow>
   \<exists>evs. s' = s\<lparr>trace := trace s @ evs\<rparr> \<and> (\<forall>r. invocations r evs = 0)"
proof (induction ps arbitrary: i b s)
  case Nil
  then show ?case by (intro exI[of _ "[]"]) simp
next
  case (Cons p ps)
  show ?case
  proof (cases "p ctx b")
    case (Inl e)
    with Cons.prems show ?thesis by (intro exI[of _ "[Resolver i d]"]) auto
  next
    case (Inr b')
    with Cons.prems have "runResolvers ps (Suc i) ctx d b' (s\<lparr>trace := trace s @ [Resolver i d]\<rparr>) = (res, s')"
      by simp
    from Cons.IH[OF this] obtain evs where
      "s' = s\<lparr>trace := trace s @ [Resolver i d]\<rparr>\<lparr>trace := trace (s\<lparr>trace := trace s @ [Resolver i d]\<rparr>) @ evs\<rparr>"
      "\<forall>r. invocations r evs = 0" by blast
    then show ?thesis by (intro exI[of _ "Resolver i d # evs"]) simp
  qed
qed

lemma defineResolved_ext:
  "allocated s \<Longrightarrow> allocated (defineResolved d r s) \<and> extendsBut F UNIV s (defineResolved d r s)"
  by (auto simp: defineResolved_def allocated_def extendsBut_def split: option.splits)

lemma fold_defineResolved_ext:
  "allocated s \<Longrightarrow>
   allocated (fold (\<lambda>tag. defineResolved tag r) tags s) \<and>
   extendsBut F UNIV s (fold (\<lambda>tag. defineResolved tag r) tags s)"
proof (induction tags arbitrary: s)
  case Nil
  then show ?case by (simp add: extendsBut_refl)
next
  case (Cons t tags)
  from defineResolved_ext[OF Cons.prems, of t r F] Cons.IH[of "defineResolved t r s"]
  show ?case using extendsBut_trans by auto
qed

lemma trace_update_ext:
  "allocated s \<Longrightarrow> \<forall>r\<in>R. invocations r evs = 0 \<Longrightarrow>
   allocated (s\<lparr>trace := trace s @ evs\<rparr>) \<and> extendsBut F R s (s\<lparr>trace := trace s @ evs\<rparr>)"
  by (auto simp: allocated_def extendsBut_def)

lemma alloc_heap_ext:
  "allocated s \<Longrightarrow>
   allocated (s\<lparr>heap := (heap s)(fresh s \<mapsto> obj), fresh := Suc (fresh s)\<rparr>) \<and>
   extendsBut F R s (s\<lparr>heap := (heap s)(fresh s \<mapsto> obj), fresh := Suc (fresh s)\<rparr>)"
  by (auto simp: allocated_def extendsBut_def less_Suc_eq)

lemma resolveTerminal_ext:
  assumes "allocated s" "resolveTerminal ctx d s = (res, s')"
  shows "allocated s' \<and> extendsBut F UNIV s s'"
proof (cases "heap s d")
  case None
  with assms show ?thesis by (simp add: resolveTerminal_def extendsBut_refl)
next
  case (Some obj)
  show ?thesis
  proof (cases "cached obj")
    case (Some r)
    with assms \<open>heap s d = Some obj\<close> show ?thesis by (simp add: resolveTerminal_def extendsBut_refl)
  next
    case None
    obtain pr s1 where rr: "runResolvers (resolvers s) 0 ctx d (body obj) s = (pr, s1)"
      by (cases "runResolvers (resolvers s) 0 ctx d (body obj) s")
    from runResolvers_ext[OF rr] obtain evs where
      s1: "s1 = s\<lparr>trace := trace s @ evs\<rparr>" and ev: "\<forall>r. invocations r evs = 0"
      by blast
    from trace_update_ext[OF assms(1), of UNIV evs F] ev s1
    have a1: "allocated s1" and e1: "extendsBut F UNIV s s1" by auto
    show ?thesis
    proof (cases pr)
      case (Inl e)
      with assms \<open>heap s d = Some obj\<close> None rr a1 e1 show ?thesis
        by (simp add: resolveTerminal_def)
    next
      case (Inr b)
      define s2 where "s2 = s1\<lparr>heap := (heap s1)(fresh s1 \<mapsto> \<lparr>body = b, cached = None\<rparr>), fresh := Suc (fresh s1)\<rparr>"
      from alloc_heap_ext[OF a1, of "\<lparr>body = b, cached = None\<rparr>" F UNIV]
      have a2: "allocated s2" and e2: "extendsBut F UNIV s1 s2" by (auto simp: s2_def)
      from assms \<open>heap s d = Some obj\<close> None rr Inr have "s' = defineResolved d (fresh s1) s2"
        by (simp add: resolveTerminal_def s2_def Let_def)
      with defineResolved_ext[OF a2, of d "fresh s1" F] e1 e2 show ?thesis
        using extendsBut_trans by blast
    qed
  qed
qed

lemma await_cases:
  assumes "await m f s = (res, s')"
  obtains (ok) a s1 where "m s = (Ok a, s1)" "f a s1 = (res, s')"
        | (stop) r where "m s = (r, s')" "\<forall>a. r \<noteq> Ok a"
                        "(\<exists>e. r = Err e \<and> res = Err e) \<or> (r = Pending \<and> res = Pending) \<or> (r = OutOfFuel \<and> res = OutOfFuel)"
proof (cases "m s")
  case (Pair r s1)
  then show ?thesis using assms that
    by (cases r) (auto simp: await_def)
qed

lemma resolve_ext:
  assumes "allocated s" "resolve n ctx type s = (res, s')"
  shows "allocated s' \<and> extendsBut F UNIV s s'"
proof -
  obtain d0 s0 where g: "getDefinition type s = (d0, s0)" by (cases "getDefinition type s")
  from getDefinition_ext[OF assms(1) g] have a0: "allocated s0" and e0: "extendsBut F UNIV s s0"
    by blast+
  from assms(2) g have aw: "await (chase n d0 [])
           (\<lambda>(d, tags). await (resolveTerminal ctx d)
              (\<lambda>r s'. (Ok r, fold (\<lambda>tag. defineResolved tag r) tags s'))) s0 = (res, s')"
    by (simp add: resolve_def)
  from aw show ?thesis
  proof (cases rule: await_cases)
    case (ok a s1)
    obtain d tags where a: "a = (d, tags)" by (cases a)
    from chase_ext[OF a0 ok(1)] have a1: "allocated s1" and e1: "extendsBut F UNIV s0 s1" by blast+
    from ok(2) a have aw2: "await (resolveTerminal ctx d)
              (\<lambda>r s'. (Ok r, fold (\<lambda>tag. defineResolved tag r) tags s')) s1 = (res, s')" by simp
    from aw2 show ?thesis
    proof (cases rule: await_cases)
      case (ok r s2)
      from resolveTerminal_ext[OF a1 ok(1)] have a2: "allocated s2" and e2: "extendsBut F UNIV s1 s2"
        by blast+
      from ok(2) have "s' = fold (\<lambda>tag. defineResolved tag r) tags s2" by simp
      with fold_defineResolved_ext[OF a2, of r tags F] e0 e1 e2 show ?thesis
        using extendsBut_trans by blast
    next
      case (stop r)
      from resolveTerminal_ext[OF a1 stop(1)] e0 e1 show ?thesis using extendsBut_trans by blast
    qed
  next
    case (stop r)
    from chase_ext[OF a0 stop(1)] e0 show ?thesis using extendsBut_trans by blast
  qed
qed

lemma forkContext_ext:
  assumes "allocated s" "forkContext ctx r s = (res, s')"
  shows "allocated s' \<and> extendsBut F R s s'"
  using assms
  by (auto simp: forkContext_def allocated_def extendsBut_def Let_def less_Suc_eq
           split: option.splits if_splits)

lemma startAll_ext:
  assumes f: "\<And>x s r s'. allocated s \<Longrightarrow> f x s = (r, s') \<Longrightarrow> allocated s' \<and> extendsBut F (R s) s s'"
      and mono: "\<And>s s'. extendsBut F (R s) s s' \<Longrightarrow> R s \<subseteq> R s'"
  shows "allocated s \<Longrightarrow> startAll f xs s = (rs, s') \<Longrightarrow> allocated s' \<and> extendsBut F (R s) s s'"
proof (induction xs arbitrary: s rs s')
  case Nil
  then show ?case by (simp add: extendsBut_refl)
next
  case (Cons x xs)
  obtain r s1 where h: "f x s = (r, s1)" by (cases "f x s")
  obtain rs1 s2 where t: "startAll f xs s1 = (rs1, s2)" by (cases "startAll f xs s1")
  from Cons.prems h t have eq: "s' = s2" by auto
  from f[OF Cons.prems(1) h] have a1: "allocated s1" and e1: "extendsBut F (R s) s s1" by blast+
  from Cons.IH[OF a1 t] have a2: "allocated s2" and e2: "extendsBut F (R s1) s1 s2" by blast+
  from e2 mono[OF e1] have "extendsBut F (R s) s1 s2" using extendsBut_weaken by blast
  with e1 a2 eq show ?case using extendsBut_trans by blast
qed

lemma extendsBut_compose:
  assumes "extendsBut F R s s1" "extendsBut F' R s1 s2" "\<forall>f\<in>F'. f \<notin> F \<longrightarrow> fresh s \<le> f"
  shows "extendsBut F R s s2"
proof -
  from assms(2) have "extendsBut (F \<union> F') R s1 s2" by (rule extendsBut_weaken) auto
  moreover from assms(1) have "extendsBut (F \<union> F') R s s1" by (rule extendsBut_weaken) auto
  ultimately have e: "extendsBut (F \<union> F') R s s2" by (rule extendsBut_trans[rotated])
  have "\<forall>f. f < fresh s \<and> f \<notin> F \<longrightarrow> futures s2 f = futures s f"
  proof (intro allI impI)
    fix f assume f: "f < fresh s \<and> f \<notin> F"
    with assms(3) have "f \<notin> F'" by auto
    with f e show "futures s2 f = futures s f" unfolding extendsBut_def by simp
  qed
  with e show ?thesis unfolding extendsBut_def by simp
qed

lemma soundD:
  "sound get \<Longrightarrow> allocated s \<Longrightarrow> get ctx dep s = (res, s') \<Longrightarrow>
   allocated s' \<and> extendsBut {} (protected ctx s) s s'"
  unfolding sound_def by blast

lemma getValue_state: "getValue p s = (res, s') \<Longrightarrow> s' = s"
  by (auto simp: getValue_def split: payload.splits)

lemma awaitFuture_state: "awaitFuture f s = (res, s') \<Longrightarrow> s' = s"
  by (auto simp: awaitFuture_def split: option.splits)

lemma startAll_get_ext:
  assumes "sound get" "allocated s" "startAll (\<lambda>x. get ctx (h x)) xs s = (rs, s')"
  shows "allocated s' \<and> extendsBut {} (protected ctx s) s s'"
proof (rule startAll_ext[where f = "\<lambda>x. get ctx (h x)" and R = "protected ctx" and F = "{}", OF _ _ assms(2,3)])
  show "\<And>x s r s'. allocated s \<Longrightarrow> get ctx (h x) s = (r, s') \<Longrightarrow>
          allocated s' \<and> extendsBut {} (protected ctx s) s s'"
    using soundD[OF assms(1)] by blast
  show "\<And>s s'. extendsBut {} (protected ctx s) s s' \<Longrightarrow> protected ctx s \<subseteq> protected ctx s'"
    by (rule protected_mono)
qed

lemma getArray_ext:
  assumes "sound get" "allocated s" "getArray get ctx elements s = (res, s')"
  shows "allocated s' \<and> extendsBut {} (protected ctx s) s s'"
proof -
  obtain rs s1 where st: "startAll (\<lambda>x. get ctx x) (case elements of None \<Rightarrow> [] | Some es \<Rightarrow> es) s = (rs, s1)"
    by (cases "startAll (\<lambda>x. get ctx x) (case elements of None \<Rightarrow> [] | Some es \<Rightarrow> es) s")
  with assms(3) have "s' = s1" by (simp add: getArray_def)
  with startAll_get_ext[OF assms(1,2), of ctx "\<lambda>x. x"] st show ?thesis by simp
qed

lemma getRecord_ext:
  assumes "sound get" "allocated s" "getRecord get ctx elements s = (res, s')"
  shows "allocated s' \<and> extendsBut {} (protected ctx s) s s'"
proof -
  define es where "es = (case elements of None \<Rightarrow> [] | Some es \<Rightarrow> es)"
  define h where "h = (\<lambda>key. case map_of es key of None \<Rightarrow> None | Some d \<Rightarrow> d)"
  obtain rs s1 where st: "startAll (\<lambda>x. get ctx (h x)) (remdups (map fst es)) s = (rs, s1)"
    by (cases "startAll (\<lambda>x. get ctx (h x)) (remdups (map fst es)) s")
  with assms(3) have "s' = s1" by (simp add: getRecord_def es_def h_def Let_def)
  with startAll_get_ext[OF assms(1,2) st] show ?thesis by simp
qed

lemma protected_trace [simp]: "protected ctx (s\<lparr>trace := t\<rparr>) = protected ctx s"
  by (simp add: protected_def registered_def)

lemma getArgs_ext:
  assumes "sound get" "allocated s" "getArgs get ctx r def s = (res, s')"
  shows "allocated s' \<and> extendsBut {} (protected ctx s) s s'"
proof -
  define s0 where "s0 = s\<lparr>trace := trace s @ [GetArgs r]\<rparr>"
  from trace_update_ext[OF assms(2), of "protected ctx s" "[GetArgs r]" "{}"]
  have a0: "allocated s0" and e0: "extendsBut {} (protected ctx s) s s0" by (auto simp: s0_def)
  show ?thesis
  proof (cases "td_args def")
    case None
    with assms(3) a0 e0 show ?thesis by (simp add: getArgs_def s0_def Let_def)
  next
    case (Some args)
    define s1 where "s1 = s0\<lparr>heap := (heap s0)(fresh s0 \<mapsto> \<lparr>body = makeArray args, cached = None\<rparr>), fresh := Suc (fresh s0)\<rparr>"
    from alloc_heap_ext[OF a0, of _ "{}" "protected ctx s"]
    have a1: "allocated s1" and e1: "extendsBut {} (protected ctx s) s0 s1" by (auto simp: s1_def)
    from assms(3) Some have g: "get ctx (Some (Literal (fresh s0))) s1 = (res, s')"
      by (simp add: getArgs_def s0_def s1_def Let_def)
    from soundD[OF assms(1) a1 g] have a2: "allocated s'" and e2: "extendsBut {} (protected ctx s1) s1 s'"
      by blast+
    from e0 e1 have e01: "extendsBut {} (protected ctx s) s s1" by (rule extendsBut_trans)
    from protected_mono[OF e01] e2 have "extendsBut {} (protected ctx s) s1 s'"
      using extendsBut_weaken by blast
    with e01 a2 show ?thesis using extendsBut_trans by blast
  qed
qed

lemma getProps_ext:
  assumes "sound get" "allocated s" "getProps get ctx r def s = (res, s')"
  shows "allocated s' \<and> extendsBut {} (protected ctx s) s s'"
proof -
  define s0 where "s0 = s\<lparr>trace := trace s @ [GetProps r]\<rparr>"
  from trace_update_ext[OF assms(2), of "protected ctx s" "[GetProps r]" "{}"]
  have a0: "allocated s0" and e0: "extendsBut {} (protected ctx s) s s0" by (auto simp: s0_def)
  show ?thesis
  proof (cases "td_props def")
    case None
    with assms(3) a0 e0 show ?thesis by (simp add: getProps_def s0_def Let_def)
  next
    case (Some props)
    define s1 where "s1 = s0\<lparr>heap := (heap s0)(fresh s0 \<mapsto> \<lparr>body = makeRecord props, cached = None\<rparr>), fresh := Suc (fresh s0)\<rparr>"
    from alloc_heap_ext[OF a0, of _ "{}" "protected ctx s"]
    have a1: "allocated s1" and e1: "extendsBut {} (protected ctx s) s0 s1" by (auto simp: s1_def)
    from assms(3) Some have g: "get ctx (Some (Literal (fresh s0))) s1 = (res, s')"
      by (simp add: getProps_def s0_def s1_def Let_def)
    from soundD[OF assms(1) a1 g] have a2: "allocated s'" and e2: "extendsBut {} (protected ctx s1) s1 s'"
      by blast+
    from e0 e1 have e01: "extendsBut {} (protected ctx s) s s1" by (rule extendsBut_trans)
    from protected_mono[OF e01] e2 have "extendsBut {} (protected ctx s) s1 s'"
      using extendsBut_weaken by blast
    with e01 a2 show ?thesis using extendsBut_trans by blast
  qed
qed

lemma invoke_ext:
  assumes "allocated s" "invoke factory r def args s = (res, s')" "r \<notin> R"
  shows "allocated s' \<and> extendsBut F R s s'"
  using assms
  by (auto simp: invoke_def allocated_def extendsBut_def Let_def less_Suc_eq
           split: sum.splits)

lemma invoke_Ok:
  assumes "invoke factory r def args s = (Ok o', s')"
  shows "o' = fresh s \<and> fresh s' = Suc (fresh s) \<and> trace s' = trace s @ [Invoke r args]"
  using assms by (auto simp: invoke_def Let_def split: sum.splits)

lemma assignProps_ext:
  "allocated s \<Longrightarrow> allocated (assignProps o' props s) \<and> extendsBut F R s (assignProps o' props s)"
  by (auto simp: assignProps_def allocated_def extendsBut_def split: option.splits val.splits)

lemma setFuture_ext:
  "allocated s \<Longrightarrow> f < fresh s \<Longrightarrow>
   allocated (setFuture f v s) \<and> extendsBut {f} R s (setFuture f v s)"
  by (auto simp: setFuture_def allocated_def extendsBut_def)

lemma create_ext:
  assumes snd: "sound get" and al: "allocated s"
      and fi: "\<forall>f. inst ctx = Some f \<longrightarrow> f < fresh s"
      and run: "ObjectFactory_create get ctx r def s = (res, s')"
      and rR: "r \<notin> R" and Rp: "R \<subseteq> protected ctx s"
  shows "allocated s' \<and> extendsBut (set_option (inst ctx)) R s s'"
proof -
  let ?F = "set_option (inst ctx)"
  obtain ap s1 where ga: "getArgs get ctx r def s = (ap, s1)" by (cases "getArgs get ctx r def s")
  from getArgs_ext[OF snd al ga] have a1: "allocated s1" and "extendsBut {} (protected ctx s) s s1"
    by blast+
  then have e1: "extendsBut ?F R s s1" using Rp extendsBut_weaken by blast
  show ?thesis
  proof (cases "td_factory def")
    case None
    with run ga a1 e1 show ?thesis by (simp add: ObjectFactory_create_def)
  next
    case (Some factory)
    show ?thesis
    proof (cases "\<exists>vs. ap = Ok (VArr vs)")
      case False
      with run ga Some have "s' = s1"
        by (cases ap) (auto simp: ObjectFactory_create_def await_def split: val.splits)
      with a1 e1 show ?thesis by simp
    next
      case True
      then obtain vs where ap: "ap = Ok (VArr vs)" by blast
      from run ga Some ap have aw: "await (invoke factory r def vs)
                      (\<lambda>o' s2.
                         (let s3 = (case inst ctx of
                                      None \<Rightarrow> s2
                                    | Some f \<Rightarrow> setFuture f (VObj o') s2)
                          in await (getProps get ctx r def)
                               (\<lambda>props s4. (Ok (VObj o'), assignProps o' props s4)) s3)) s1 = (res, s')"
        by (simp add: ObjectFactory_create_def await_def)
      from aw show ?thesis
      proof (cases rule: await_cases)
        case (stop x)
        from invoke_ext[OF a1 stop(1) rR, of ?F] e1 show ?thesis using extendsBut_trans by blast
      next
        case (ok o' s2)
        from invoke_ext[OF a1 ok(1) rR, of ?F] have a2: "allocated s2" and e2: "extendsBut ?F R s1 s2"
          by blast+
        from e1 e2 have e02: "extendsBut ?F R s s2" by (rule extendsBut_trans)
        define s3 where "s3 = (case inst ctx of None \<Rightarrow> s2 | Some f \<Rightarrow> setFuture f (VObj o') s2)"
        have a3: "allocated s3" and e3: "extendsBut ?F R s2 s3"
        proof -
          show "allocated s3"
          proof (cases "inst ctx")
            case None then show ?thesis using a2 by (simp add: s3_def)
          next
            case (Some f)
            with fi e02 have "f < fresh s2" unfolding extendsBut_def by auto
            from setFuture_ext[OF a2 this] Some show ?thesis by (simp add: s3_def)
          qed
          show "extendsBut ?F R s2 s3"
          proof (cases "inst ctx")
            case None then show ?thesis by (simp add: s3_def extendsBut_refl)
          next
            case (Some f)
            with fi e02 have "f < fresh s2" unfolding extendsBut_def by auto
            from setFuture_ext[OF a2 this, of "VObj o'" R] Some show ?thesis by (simp add: s3_def)
          qed
        qed
        from e02 e3 have e03: "extendsBut ?F R s s3" by (rule extendsBut_trans)
        from ok(2) have aw2: "await (getProps get ctx r def)
                               (\<lambda>props s4. (Ok (VObj o'), assignProps o' props s4)) s3 = (res, s')"
          by (simp add: s3_def Let_def)
        have pm: "R \<subseteq> protected ctx s3" using Rp protected_mono[OF e03] by blast
        from aw2 show ?thesis
        proof (cases rule: await_cases)
          case (stop x)
          from getProps_ext[OF snd a3 stop(1)] have "allocated s'" "extendsBut {} (protected ctx s3) s3 s'"
            by blast+
          then show ?thesis using pm e03 extendsBut_weaken[of "{}" "protected ctx s3" s3 s' ?F R]
            extendsBut_trans by blast
        next
          case (ok props s4)
          from getProps_ext[OF snd a3 ok(1)] have a4: "allocated s4" and "extendsBut {} (protected ctx s3) s3 s4"
            by blast+
          then have e4: "extendsBut ?F R s3 s4" using pm extendsBut_weaken by blast
          from ok(2) have "s' = assignProps o' props s4" by simp
          with assignProps_ext[OF a4, of o' props ?F R] e03 e4 show ?thesis
            using extendsBut_trans by blast
        qed
      qed
    qed
  qed
qed

lemma provider_setup:
  assumes "inst ctx = None" "registryGet ctx (td_type def) s = None" "objRegistry s r = None"
  shows "\<exists>s4 a. ObjectProvider_get get ctx r def s
                  = ObjectFactory_create get (ctx\<lparr>inst := Some (fresh s), registry := Some a\<rparr>) r def s4 \<and>
                (allocated s \<longrightarrow> allocated s4) \<and> extendsBut {} UNIV s s4 \<and> fresh s < fresh s4 \<and>
                objRegistry s4 = (objRegistry s)(r \<mapsto> fresh s) \<and>
                futures s4 = (futures s)(fresh s \<mapsto> None) \<and>
                heap s4 = heap s \<and> trace s4 = trace s \<and> defRegistry s4 = defRegistry s"
proof (cases "registry ctx")
  case None
  with assms show ?thesis
    apply (simp add: ObjectProvider_get_def newFuture_def registrySet_def Let_def)
    apply (intro exI conjI)
            apply (rule refl)
           apply (auto simp: allocated_def extendsBut_def less_Suc_eq)
    done
next
  case (Some a)
  with assms show ?thesis
    apply (simp add: ObjectProvider_get_def newFuture_def registrySet_def Let_def)
    apply (intro exI conjI)
            apply (rule refl)
           apply (auto simp: allocated_def extendsBut_def less_Suc_eq)
    done
qed

lemma registered_subset:
  "heap s' = heap s \<Longrightarrow> (\<forall>r f. objRegistry s r = Some f \<longrightarrow> objRegistry s' r = Some f) \<Longrightarrow>
   registered s \<subseteq> registered s'"
  unfolding registered_def by auto

lemma provider_get_ext:
  assumes snd: "sound get" and al: "allocated s" and ni: "inst ctx = None"
      and run: "ObjectProvider_get get ctx r def s = (res, s')"
      and Rp: "R \<subseteq> protected ctx s" and rR: "r \<in> R \<longrightarrow> objRegistry s r \<noteq> None"
  shows "allocated s' \<and> extendsBut {} R s s'"
proof (cases "registryGet ctx (td_type def) s")
  case (Some f)
  with run have "s' = s" by (auto simp: ObjectProvider_get_def dest: awaitFuture_state)
  with al show ?thesis by (simp add: extendsBut_refl)
next
  case None
  show ?thesis
  proof (cases "objRegistry s r")
    case (Some f)
    with run None have "s' = s" by (auto simp: ObjectProvider_get_def dest: awaitFuture_state)
    with al show ?thesis by (simp add: extendsBut_refl)
  next
    case none: None
    from provider_setup[OF ni None none, of get] obtain s4 a where
      eq: "ObjectProvider_get get ctx r def s
             = ObjectFactory_create get (ctx\<lparr>inst := Some (fresh s), registry := Some a\<rparr>) r def s4"
      and a4: "allocated s4" and e4: "extendsBut {} UNIV s s4" and fr: "fresh s < fresh s4"
      using al by blast
    let ?ctx = "ctx\<lparr>inst := Some (fresh s), registry := Some a\<rparr>"
    from run eq have c: "ObjectFactory_create get ?ctx r def s4 = (res, s')" by simp
    have fi: "\<forall>f. inst ?ctx = Some f \<longrightarrow> f < fresh s4" using fr by simp
    have "registered s \<subseteq> registered s4" by (rule registered_mono[OF e4])
    then have Rp4: "R \<subseteq> protected ?ctx s4" using Rp by (auto simp: protected_def)
    from rR none have "r \<notin> R" by blast
    from create_ext[OF snd a4 fi c this Rp4]
    have a': "allocated s'" and e': "extendsBut {fresh s} R s4 s'" by auto
    from e4 have "extendsBut {} R s s4" by (rule extendsBut_weaken) auto
    from extendsBut_compose[OF this e'] a' show ?thesis by simp
  qed
qed

lemma getType_ext:
  assumes snd: "sound get" and al: "allocated s" and ni: "inst ctx = None"
      and run: "getType get ctx r def s = (res, s')"
      and Rp: "R \<subseteq> protected ctx s"
      and rR: "r \<in> R \<longrightarrow> shared ctx \<and> objRegistry s r \<noteq> None"
  shows "allocated s' \<and> extendsBut {} R s s'"
proof (cases "shared ctx")
  case True
  with run have "ObjectProvider_get get ctx r def s = (res, s')" by (simp add: getType_def)
  from provider_get_ext[OF snd al ni this Rp] rR show ?thesis by blast
next
  case False
  with run have c: "ObjectFactory_create get ctx r def s = (res, s')" by (simp add: getType_def)
  from False rR have "r \<notin> R" by blast
  from create_ext[OF snd al _ c this Rp] ni show ?thesis by simp
qed

lemma forkContext_Ok:
  assumes "forkContext ctx r s = (Ok ctx', s')"
  shows "r \<notin> set (stack ctx) \<and> stack ctx' = stack ctx @ [r] \<and> inst ctx' = None \<and>
         registry ctx' = Some (fresh s) \<and>
         heap s' = heap s \<and> objRegistry s' = objRegistry s \<and> futures s' = futures s \<and>
         trace s' = trace s \<and> defRegistry s' = defRegistry s \<and> fresh s' = Suc (fresh s) \<and>
         (\<exists>obj. heap s r = Some obj \<and> shared ctx' = isShared (body obj)) \<and>
         (\<forall>h. registryGet ctx' h s' = registryGet ctx h s)"
  using assms
  by (auto simp: forkContext_def registryGet_def Let_def split: option.splits if_splits)

lemma getDependency_ext:
  assumes snd: "sound get" and al: "allocated s"
      and run: "getDependency get ctx r s = (res, s')"
  shows "allocated s' \<and> extendsBut {} (protected ctx s) s s'"
proof -
  from run have aw: "await (forkContext ctx r)
       (\<lambda>ctx' s. case heap s r of
          None \<Rightarrow> (Err typeError, s)
        | Some obj \<Rightarrow>
            (case body obj of
               DValue p \<Rightarrow> getValue p s
             | DArray elements \<Rightarrow> getArray get ctx' elements s
             | DRecord elements \<Rightarrow> getRecord get ctx' elements s
             | DType def \<Rightarrow> getType get ctx' r def s
             | DReference _ \<Rightarrow> (Err InvalidDefinition, s))) s = (res, s')"
    by (simp add: getDependency_def)
  from aw show ?thesis
  proof (cases rule: await_cases)
    case (stop x)
    from forkContext_ext[OF al stop(1)] show ?thesis by blast
  next
    case (ok ctx' sb)
    from forkContext_ext[OF al ok(1), of "{}" "protected ctx s"]
    have ab: "allocated sb" and eb: "extendsBut {} (protected ctx s) s sb" by blast+
    from forkContext_Ok[OF ok(1)] obtain obj where
      fk: "r \<notin> set (stack ctx)" "stack ctx' = stack ctx @ [r]" "inst ctx' = None"
          "heap sb = heap s" "objRegistry sb = objRegistry s" "heap s r = Some obj"
          "shared ctx' = isShared (body obj)" by blast
    have reg: "registered sb = registered s" using fk(4,5) by (simp add: registered_def)
    have sub: "protected ctx s \<subseteq> protected ctx' sb"
      using fk(2) reg by (auto simp: protected_def)
    have main: "allocated s' \<and> extendsBut {} (protected ctx s) sb s'"
    proof (cases "body obj")
      case (DValue p)
      with ok(2) fk have "s' = sb" by (auto dest: getValue_state)
      with ab show ?thesis by (simp add: extendsBut_refl)
    next
      case (DArray elements)
      with ok(2) fk have "getArray get ctx' elements sb = (res, s')" by simp
      from getArray_ext[OF snd ab this] sub show ?thesis using extendsBut_weaken by blast
    next
      case (DRecord elements)
      with ok(2) fk have "getRecord get ctx' elements sb = (res, s')" by simp
      from getRecord_ext[OF snd ab this] sub show ?thesis using extendsBut_weaken by blast
    next
      case (DType def)
      with ok(2) fk have g: "getType get ctx' r def sb = (res, s')" by simp
      have "r \<in> protected ctx s \<longrightarrow> shared ctx' \<and> objRegistry sb r \<noteq> None"
        using fk by (auto simp: protected_def registered_def)
      from getType_ext[OF snd ab fk(3) g sub this] show ?thesis .
    next
      case (DReference t)
      with ok(2) fk have "s' = sb" by auto
      with ab show ?thesis by (simp add: extendsBut_refl)
    qed
    with eb show ?thesis using extendsBut_trans by blast
  qed
qed

lemma DependencyProvider_get_sound:
  assumes "sound get"
  shows "sound (DependencyProvider_get n get)"
  unfolding sound_def
proof (intro allI impI, elim conjE)
  fix ctx dep s res s'
  assume al: "allocated s" and run: "DependencyProvider_get n get ctx dep s = (res, s')"
  show "allocated s' \<and> extendsBut {} (protected ctx s) s s'"
  proof (cases dep)
    case None
    with run al show ?thesis by (simp add: DependencyProvider_get_def extendsBut_refl)
  next
    case (Some d)
    with run have aw: "await (resolve n ctx d)
            (\<lambda>r s'. case heap s' r of
               None \<Rightarrow> (Err typeError, s')
             | Some obj \<Rightarrow>
                 (case hashOf (body obj) of
                    None \<Rightarrow> getDependency get ctx r s'
                  | Some hash \<Rightarrow>
                      (case registryGet ctx hash s' of
                         Some f \<Rightarrow> awaitFuture f s'
                       | None \<Rightarrow> getDependency get ctx r s'))) s = (res, s')"
      by (simp add: DependencyProvider_get_def)
    from aw show ?thesis
    proof (cases rule: await_cases)
      case (stop x)
      from resolve_ext[OF al stop(1), of "{}"] show ?thesis using extendsBut_weaken by blast
    next
      case (ok r sa)
      from resolve_ext[OF al ok(1), of "{}"] have aa: "allocated sa" and "extendsBut {} UNIV s sa"
        by blast+
      then have ea: "extendsBut {} (protected ctx s) s sa" using extendsBut_weaken by blast
      have "s' = sa \<or> getDependency get ctx r sa = (res, s')"
        using ok(2) by (auto split: option.splits dest: awaitFuture_state)
      then show ?thesis
      proof
        assume "s' = sa" with aa ea show ?thesis by simp
      next
        assume "getDependency get ctx r sa = (res, s')"
        from getDependency_ext[OF assms aa this] have a': "allocated s'"
          and "extendsBut {} (protected ctx sa) sa s'" by blast+
        with protected_mono[OF ea] have "extendsBut {} (protected ctx s) sa s'"
          using extendsBut_weaken by blast
        with ea a' show ?thesis using extendsBut_trans by blast
      qed
    qed
  qed
qed

lemma provide_sound: "sound (provide n)"
proof (induction n)
  case 0
  show ?case by (simp add: sound_def extendsBut_refl)
next
  case (Suc n)
  have "provide (Suc n) = DependencyProvider_get (Suc n) (provide n)"
    by (intro ext) simp
  with DependencyProvider_get_sound[OF Suc] show ?case by simp
qed

section \<open>Construction\<close>

lemma prefixE': "prefix xs ys \<Longrightarrow> \<exists>zs. ys = xs @ zs"
  by (auto simp: prefix_def)

lemma getArgs_trace:
  assumes "sound get" "allocated s" "getArgs get ctx r def s = (res, s')"
  shows "\<exists>evs. trace s' = trace s @ GetArgs r # evs \<and>
               (\<forall>x\<in>protected ctx s. invocations x evs = 0)"
proof (cases "td_args def")
  case None
  with assms(3) show ?thesis by (auto simp: getArgs_def Let_def)
next
  case (Some args)
  define s1 where "s1 = s\<lparr>trace := trace s @ [GetArgs r],
      heap := (heap s)(fresh s \<mapsto> \<lparr>body = makeArray args, cached = None\<rparr>), fresh := Suc (fresh s)\<rparr>"
  from assms(3) Some have g: "get ctx (Some (Literal (fresh s))) s1 = (res, s')"
    by (simp add: getArgs_def s1_def Let_def)
  have a1: "allocated s1" using assms(2) by (auto simp: allocated_def s1_def less_Suc_eq)
  have p1: "protected ctx s \<subseteq> protected ctx s1"
    using assms(2) by (auto simp: protected_def registered_def s1_def allocated_def)
  from soundD[OF assms(1) a1 g] have e: "extendsBut {} (protected ctx s1) s1 s'" by blast
  then have "prefix (trace s1) (trace s')" unfolding extendsBut_def by simp
  then obtain evs where ev: "trace s' = trace s1 @ evs" by (auto simp: prefix_def)
  from e ev have "\<forall>x\<in>protected ctx s1. invocations x evs = 0" unfolding extendsBut_def by simp
  with p1 ev show ?thesis by (auto simp: s1_def)
qed

lemma getProps_trace:
  assumes "sound get" "allocated s" "getProps get ctx r def s = (res, s')"
  shows "\<exists>evs. trace s' = trace s @ GetProps r # evs \<and>
               (\<forall>x\<in>protected ctx s. invocations x evs = 0)"
proof (cases "td_props def")
  case None
  with assms(3) show ?thesis by (auto simp: getProps_def Let_def)
next
  case (Some props)
  define s1 where "s1 = s\<lparr>trace := trace s @ [GetProps r],
      heap := (heap s)(fresh s \<mapsto> \<lparr>body = makeRecord props, cached = None\<rparr>), fresh := Suc (fresh s)\<rparr>"
  from assms(3) Some have g: "get ctx (Some (Literal (fresh s))) s1 = (res, s')"
    by (simp add: getProps_def s1_def Let_def)
  have a1: "allocated s1" using assms(2) by (auto simp: allocated_def s1_def less_Suc_eq)
  have p1: "protected ctx s \<subseteq> protected ctx s1"
    using assms(2) by (auto simp: protected_def registered_def s1_def allocated_def)
  from soundD[OF assms(1) a1 g] have e: "extendsBut {} (protected ctx s1) s1 s'" by blast
  then have "prefix (trace s1) (trace s')" unfolding extendsBut_def by simp
  then obtain evs where ev: "trace s' = trace s1 @ evs" by (auto simp: prefix_def)
  from e ev have "\<forall>x\<in>protected ctx s1. invocations x evs = 0" unfolding extendsBut_def by simp
  with p1 ev show ?thesis by (auto simp: s1_def)
qed

text \<open>The shape of a successful \<open>create\<close>.\<close>

lemma create_Ok:
  assumes snd: "sound get" and al: "allocated s"
      and fi: "\<forall>f. inst ctx = Some f \<longrightarrow> f < fresh s"
      and run: "ObjectFactory_create get ctx r def s = (Ok v, s')"
  shows "\<exists>vs evs1 evs2 o'.
           trace s' = trace s @ GetArgs r # evs1 @ Invoke r vs # GetProps r # evs2 \<and>
           (\<forall>x\<in>protected ctx s. invocations x evs1 = 0 \<and> invocations x evs2 = 0) \<and>
           v = VObj o' \<and> fresh s \<le> o' \<and> o' < fresh s' \<and>
           (\<forall>f. inst ctx = Some f \<longrightarrow> futures s' f = Some (Some v))"
proof -
  let ?F = "set_option (inst ctx)"
  obtain ap s1 where ga: "getArgs get ctx r def s = (ap, s1)" by (cases "getArgs get ctx r def s")
  from getArgs_ext[OF snd al ga] have a1: "allocated s1" and e1: "extendsBut {} (protected ctx s) s s1"
    by blast+
  from getArgs_trace[OF snd al ga] obtain evs1 where
    t1: "trace s1 = trace s @ GetArgs r # evs1" "\<forall>x\<in>protected ctx s. invocations x evs1 = 0" by blast
  from run ga obtain factory where fa: "td_factory def = Some factory"
    by (cases "td_factory def") (auto simp: ObjectFactory_create_def)
  from run ga fa obtain vs where ap: "ap = Ok (VArr vs)"
    by (cases ap) (auto simp: ObjectFactory_create_def await_def split: val.splits)
  from run ga fa ap have aw: "await (invoke factory r def vs)
                      (\<lambda>o' s2.
                         (let s3 = (case inst ctx of
                                      None \<Rightarrow> s2
                                    | Some f \<Rightarrow> setFuture f (VObj o') s2)
                          in await (getProps get ctx r def)
                               (\<lambda>props s4. (Ok (VObj o'), assignProps o' props s4)) s3)) s1 = (Ok v, s')"
    by (simp add: ObjectFactory_create_def await_def)
  from aw show ?thesis
  proof (cases rule: await_cases)
    case (stop x)
    then show ?thesis by auto
  next
    case (ok o' s2)
    from invoke_Ok[OF ok(1)] have i: "o' = fresh s1" "fresh s2 = Suc (fresh s1)"
      "trace s2 = trace s1 @ [Invoke r vs]" by auto
    from invoke_ext[OF a1 ok(1), of "{}" "{}"] have a2: "allocated s2" and e2: "extendsBut {} {} s1 s2"
      by auto
    define s3 where "s3 = (case inst ctx of None \<Rightarrow> s2 | Some f \<Rightarrow> setFuture f (VObj o') s2)"
    have fr1: "fresh s \<le> fresh s1" using e1 unfolding extendsBut_def by simp
    have a3: "allocated s3"
    proof (cases "inst ctx")
      case None then show ?thesis using a2 by (simp add: s3_def)
    next
      case (Some f)
      with fi fr1 i have "f < fresh s2" by auto
      from setFuture_ext[OF a2 this] Some show ?thesis by (simp add: s3_def)
    qed
    have s3: "trace s3 = trace s2" "fresh s3 = fresh s2" "heap s3 = heap s2" "objRegistry s3 = objRegistry s2"
      "\<forall>f. inst ctx = Some f \<longrightarrow> futures s3 f = Some (Some (VObj o'))"
      by (auto simp: s3_def setFuture_def split: option.splits)
    from ok(2) have aw2: "await (getProps get ctx r def)
                               (\<lambda>props s4. (Ok (VObj o'), assignProps o' props s4)) s3 = (Ok v, s')"
      by (simp add: s3_def Let_def)
    have e03: "extendsBut ?F {} s s3"
    proof -
      have "extendsBut ?F {} s s1" using e1 by (rule extendsBut_weaken) auto
      moreover have "extendsBut ?F {} s1 s2" using e2 by (rule extendsBut_weaken) auto
      moreover have "extendsBut ?F {} s2 s3"
      proof (cases "inst ctx")
        case None then show ?thesis by (simp add: s3_def extendsBut_refl)
      next
        case (Some f)
        with fi fr1 i have "f < fresh s2" by auto
        from setFuture_ext[OF a2 this, of "VObj o'" "{}"] Some show ?thesis by (simp add: s3_def)
      qed
      ultimately show ?thesis using extendsBut_trans by blast
    qed
    have pm: "protected ctx s \<subseteq> protected ctx s3" by (rule protected_mono[OF e03])
    from aw2 show ?thesis
    proof (cases rule: await_cases)
      case (stop x)
      then show ?thesis by auto
    next
      case (ok props s4)
      from getProps_trace[OF snd a3 ok(1)] obtain evs2 where
        t4: "trace s4 = trace s3 @ GetProps r # evs2" "\<forall>x\<in>protected ctx s3. invocations x evs2 = 0"
        by blast
      from getProps_ext[OF snd a3 ok(1)] have e4: "extendsBut {} (protected ctx s3) s3 s4" by blast
      from ok(2) have fin: "v = VObj o'" "s' = assignProps o' props s4" by auto
      have t': "trace s' = trace s4" "fresh s' = fresh s4" "futures s' = futures s4"
        by (auto simp: fin assignProps_def split: option.splits val.splits)
      have fr: "fresh s3 \<le> fresh s4" using e4 unfolding extendsBut_def by simp
      have fut: "\<forall>f. inst ctx = Some f \<longrightarrow> futures s' f = Some (Some v)"
      proof (intro allI impI)
        fix f assume f: "inst ctx = Some f"
        with fi fr1 i s3 have "f < fresh s3" by auto
        with e4 have "futures s4 f = futures s3 f" unfolding extendsBut_def by simp
        with s3 f t' fin show "futures s' f = Some (Some v)" by simp
      qed
      have "trace s' = trace s @ GetArgs r # evs1 @ Invoke r vs # GetProps r # evs2"
        using t' t4 s3 i t1 by simp
      moreover have "\<forall>x\<in>protected ctx s. invocations x evs1 = 0 \<and> invocations x evs2 = 0"
        using t1 t4 pm by blast
      moreover have "fresh s \<le> o'" "o' < fresh s'" using i fr1 fr s3 t' by auto
      ultimately show ?thesis using fin fut by blast
    qed
  qed
qed

text \<open>
  C6, as stated, fails: for the type bound with one argument and one property, the trace
  of \<open>get\<close> shows that \<open>getProps\<close> is entered only after the factory was invoked.
\<close>

theorem props_not_started_before_factory:
  "(let (r, s) = DependencyManager_get 3 1 exArgsProps
    in r = Ok (VObj 11) \<and> trace s = [GetArgs 3, Invoke 3 [VStr ''arg''], GetProps 3])"
  by (simp add: run_defs exArgsProps_def argsPropsDef_def)

text \<open>
  C6, amended. \<open>ObjectFactory.create\<close> starts the resolution of the arguments first,
  invokes the factory once they are resolved, and starts the resolution of the
  properties only after the factory has returned the instance: in the trace of a
  successful \<open>create\<close>, \<open>getArgs\<close> and everything the arguments cause come before the
  invocation, and \<open>getProps\<close> comes directly after it.
\<close>

theorem props_resolved_after_construction:
  assumes "allocated s" "\<forall>f. inst ctx = Some f \<longrightarrow> f < fresh s"
      and "ObjectFactory_create (provide n) ctx r def s = (Ok v, s')"
  shows "\<exists>args evs1 evs2.
           trace s' = trace s @ GetArgs r # evs1 @ Invoke r args # GetProps r # evs2"
  using create_Ok[OF provide_sound assms] by blast

theorem props_resolved_after_construction_witness:
  "allocated exArgsProps \<and> inst getContext = None \<and>
   fst (ObjectFactory_create (provide 2) getContext 2 argsPropsDef exArgsProps) = Ok (VObj 8) \<and>
   (\<exists>args evs1 evs2.
      trace (snd (ObjectFactory_create (provide 2) getContext 2 argsPropsDef exArgsProps))
        = trace exArgsProps @ GetArgs 2 # evs1 @ Invoke 2 args # GetProps 2 # evs2)"
proof -
  have a: "allocated exArgsProps"
    by (simp add: allocated_def engine_defs exArgsProps_def)
  have b: "\<forall>f. inst getContext = Some f \<longrightarrow> f < fresh exArgsProps"
    by (simp add: getContext_def)
  have c0: "fst (ObjectFactory_create (provide 2) getContext 2 argsPropsDef exArgsProps) = Ok (VObj 8)"
    by (simp add: run_defs exArgsProps_def argsPropsDef_def)
  then have c: "ObjectFactory_create (provide 2) getContext 2 argsPropsDef exArgsProps
                = (Ok (VObj 8), snd (ObjectFactory_create (provide 2) getContext 2 argsPropsDef exArgsProps))"
    by (metis prod.collapse)
  have b0: "inst getContext = None" by (simp add: getContext_def)
  from props_resolved_after_construction[OF a b c] a b0 c0 show ?thesis by blast
qed

section \<open>Memoized instances\<close>


lemma chase_terminal:
  "heap s d = Some obj \<Longrightarrow> \<not> isReference (body obj) \<Longrightarrow>
   chase (Suc n) d tags s = (Ok (d, tags), s)"
  by (cases "body obj") (auto simp: isReference_def)

lemma resolve_cached:
  assumes "defRegistry s t = Some d" "heap s d = Some obj" "\<not> isReference (body obj)"
      and "cached obj = Some r"
  shows "resolve (Suc n) ctx (ByToken t) s = (Ok r, s)"
  using assms chase_terminal[OF assms(2,3), of n "[]"]
  by (simp add: resolve_def getDefinition_def await_def resolveTerminal_def)

lemma memoized_request:
  assumes "memoized s t r f v" "stack ctx = []" "registry ctx = None"
  shows "provide (Suc n) ctx (Some (ByToken t)) s
           = (Ok v, s\<lparr>registries := (registries s)(fresh s \<mapsto> Map.empty),
                       fresh := Suc (fresh s)\<rparr>)"
proof -
  from assms(1) obtain d obj robj def where
    m: "defRegistry s t = Some d" "heap s d = Some obj" "\<not> isReference (body obj)"
       "cached obj = Some r" "heap s r = Some robj" "body robj = DType def"
       "isShared (DType def)" "objRegistry s r = Some f" "futures s f = Some (Some v)"
    unfolding memoized_def by blast
  from resolve_cached[OF m(1-4)] m(5-9) assms(2,3) show ?thesis
    by (simp add: DependencyProvider_get_def await_def hashOf_def registryGet_def
          getDependency_def forkContext_def Let_def getType_def ObjectProvider_get_def
          awaitFuture_def)
qed

lemma memoized_after:
  "memoized s t r f v \<Longrightarrow>
   memoized (s\<lparr>registries := rg, fresh := k\<rparr>) t r f v"
  by (simp add: memoized_def)

text \<open>
  C2, amended. The instance of a shared Type is memoized in the instance registry of the
  \<open>ObjectProvider\<close>, under the resolved definition object, and the registry outlives the
  call: every top-level \<open>get\<close> forks a new, empty context registry, but when the instance
  registry holds a settled future for the definition, the call returns that instance,
  invokes nothing (the trace is unchanged) and leaves the memo in place.
\<close>

theorem shared_instance_outlives_the_call:
  assumes "memoized s t r f v"
  shows "DependencyManager_get (Suc n) t s
           = (Ok v, s\<lparr>registries := (registries s)(fresh s \<mapsto> Map.empty),
                       fresh := Suc (fresh s)\<rparr>) \<and>
         trace (snd (DependencyManager_get (Suc n) t s)) = trace s \<and>
         memoized (snd (DependencyManager_get (Suc n) t s)) t r f v"
  using memoized_request[OF assms, of getContext n] memoized_after[OF assms]
  by (simp add: DependencyManager_get_def getContext_def)

text \<open>
  C2, as stated, fails: the second top-level \<open>get(1)\<close> returns the instance the first one
  constructed, and the factory is not invoked again.
\<close>

theorem second_get_returns_first_instance:
  "(let (r1, s1) = DependencyManager_get 1 1 exFoo;
        (r2, s2) = DependencyManager_get 1 1 s1
    in r1 = Ok (VObj 4) \<and> r2 = Ok (VObj 4) \<and>
       trace s1 = [GetArgs 1, Invoke 1 [], GetProps 1] \<and> trace s2 = trace s1)"
  by (simp add: run_defs exFoo_def)

theorem shared_instance_outlives_the_call_witness:
  "memoized (snd (DependencyManager_get 1 1 exFoo)) 1 1 3 (VObj 4) \<and>
   fst (DependencyManager_get 1 1 (snd (DependencyManager_get 1 1 exFoo))) = Ok (VObj 4) \<and>
   trace (snd (DependencyManager_get 1 1 (snd (DependencyManager_get 1 1 exFoo))))
     = [GetArgs 1, Invoke 1 [], GetProps 1]"
proof -
  have m: "memoized (snd (DependencyManager_get 1 1 exFoo)) 1 1 3 (VObj 4)"
    by (simp add: memoized_def run_defs exFoo_def isReference_def)
  have t: "trace (snd (DependencyManager_get 1 1 exFoo)) = [GetArgs 1, Invoke 1 [], GetProps 1]"
    by (simp add: run_defs exFoo_def)
  from shared_instance_outlives_the_call[OF m, of 0] m t show ?thesis by simp
qed

section \<open>Requests for a bound type\<close>



















section \<open>The definition resolver\<close>








lemma heap_defineResolved_dom: "heap (defineResolved d r s) x = None \<longleftrightarrow> heap s x = None"
  by (auto simp: defineResolved_def split: option.splits)

lemma fold_defineResolved_dom:
  "heap (fold (\<lambda>tag. defineResolved tag r) tags s) x = None \<longleftrightarrow> heap s x = None"
  by (induction tags arbitrary: s) (simp_all add: heap_defineResolved_dom)



lemma fold_defineResolved_noop:
  "\<forall>x\<in>set tags. cachedOf s x \<noteq> None \<Longrightarrow> fold (\<lambda>tag. defineResolved tag r) tags s = s"
proof (induction tags arbitrary: s)
  case Nil
  then show ?case by simp
next
  case (Cons t tags)
  then have "defineResolved t r s = s"
    by (auto simp: defineResolved_def cachedOf_def split: option.splits)
  with Cons show ?case by simp
qed
















end
